theory Spec2Isabelle
  imports Main "HOL-Library.Word"
begin

section \<open>The listener of the watchman daemon (listener.c)\<close>

text \<open>
  A shallow embedding of the clock and cursor service, the per-client response queue,
  the command dispatcher and the log broadcaster of \<^verbatim>\<open>listener.c\<close>.

  Conventions.
  \<^item> A nullable C pointer is an \<open>option\<close>: \<open>None\<close> is \<^verbatim>\<open>NULL\<close>.
  \<^item> \<^verbatim>\<open>uint32_t\<close> is \<open>32 word\<close>; \<^verbatim>\<open>int\<close> values that are only compared
    (pids, log levels) are \<open>32 word\<close> read with \<open>sint\<close>, or \<open>int\<close>.
  \<^item> Constants and calls that \<^verbatim>\<open>watchman.h\<close>, \<^verbatim>\<open>config.h\<close> and the C library
    provide are fields of the record \<open>env\<close>, so every result holds for any value of them.
  \<^item> The mutexes (\<^verbatim>\<open>w_client_lock\<close>, the root lock) are not modelled: each function
    below is one critical section, executed atomically.
\<close>

subsection \<open>Build constants and process identity\<close>

record env =
  PACKAGE_VERSION :: string      \<comment> \<open>\<^verbatim>\<open>PACKAGE_VERSION\<close> of config.h\<close>
  WATCHMAN_NAME_MAX :: nat       \<comment> \<open>size of the buffer in \<^verbatim>\<open>send_error_response\<close>\<close>
  W_LOG_OFF :: int               \<comment> \<open>the log level that disables logging to a client\<close>
  getpid :: "32 word"            \<comment> \<open>what \<^verbatim>\<open>getpid()\<close> returns, as an \<^verbatim>\<open>int\<close>\<close>

subsection \<open>JSON documents\<close>

text \<open>
  The document model of the jansson library. A \<^verbatim>\<open>json_t *\<close> is a \<open>json option\<close>.
  Objects keep their members in insertion order. Strings are C strings (no embedded
  NUL). The constructors of the library are total here: running out of memory while
  building a document is outside the model.
\<close>

datatype json =
    JObject "(string \<times> json) list"
  | JArray "json list"
  | JString string
  | JInteger "64 word"
  | JReal "64 word"
  | JTrue
  | JFalse
  | JNull

fun json_is_integer :: "json option \<Rightarrow> bool" where
  "json_is_integer (Some (JInteger v)) = True"
| "json_is_integer _ = False"

fun json_integer_value :: "json option \<Rightarrow> 64 word" where
  "json_integer_value (Some (JInteger v)) = v"
| "json_integer_value _ = 0"

fun json_string_value :: "json option \<Rightarrow> string option" where
  "json_string_value (Some (JString s)) = Some s"
| "json_string_value _ = None"

fun json_array_size :: "json option \<Rightarrow> nat" where
  "json_array_size (Some (JArray xs)) = length xs"
| "json_array_size _ = 0"

fun json_array_get :: "json option \<Rightarrow> nat \<Rightarrow> json option" where
  "json_array_get (Some (JArray xs)) i = (if i < length xs then Some (xs ! i) else None)"
| "json_array_get _ i = None"

fun json_object_get :: "json \<Rightarrow> string \<Rightarrow> json option" where
  "json_object_get (JObject kvs) k = map_of kvs k"
| "json_object_get _ k = None"

fun object_set :: "string \<Rightarrow> json \<Rightarrow> (string \<times> json) list \<Rightarrow> (string \<times> json) list" where
  "object_set k v [] = [(k, v)]"
| "object_set k v ((k', v') # kvs) =
     (if k' = k then (k, v) # kvs else (k', v') # object_set k v kvs)"

text \<open>
  \<^verbatim>\<open>set_prop(obj, key, val)\<close> is \<^verbatim>\<open>json_object_set_new_nocheck\<close>: it replaces the
  member \<open>key\<close> or adds it, and does nothing when \<open>obj\<close> is not an object.
\<close>

fun set_prop :: "json \<Rightarrow> string \<Rightarrow> json \<Rightarrow> json" where
  "set_prop (JObject kvs) k v = JObject (object_set k v kvs)"
| "set_prop j k v = j"

definition make_response :: "env \<Rightarrow> json" where
  "make_response e = set_prop (JObject []) ''version'' (JString (PACKAGE_VERSION e))"

subsection \<open>Decimal output and input of the C library\<close>

text \<open>The conversions \<^verbatim>\<open>%d\<close> and \<^verbatim>\<open>%u\<close> of \<^verbatim>\<open>snprintf\<close>.\<close>

definition digit_char :: "nat \<Rightarrow> char" where
  "digit_char d = char_of (48 + d)"

fun dec_digits :: "nat \<Rightarrow> string" where
  "dec_digits n = (if n < 10 then [digit_char n] else dec_digits (n div 10) @ [digit_char (n mod 10)])"

declare dec_digits.simps [simp del]

definition printf_u :: "nat \<Rightarrow> string" where
  "printf_u n = dec_digits n"

definition printf_d :: "int \<Rightarrow> string" where
  "printf_d i = (if i < 0 then CHR ''-'' # dec_digits (nat (- i)) else dec_digits (nat i))"

text \<open>
  The conversions \<^verbatim>\<open>%d\<close> and \<^verbatim>\<open>%u\<close> of \<^verbatim>\<open>sscanf\<close>: white space is
  skipped, then an optional sign and the longest run of decimal digits is read; no digit
  is a matching failure. A value out of the range of the target is undefined in ISO C;
  the model follows glibc on LP64, which converts with \<^verbatim>\<open>strtol\<close>/\<^verbatim>\<open>strtoul\<close>
  (saturating at 64 bits) and stores the low 32 bits.
\<close>

definition isspace :: "char \<Rightarrow> bool" where
  "isspace c \<longleftrightarrow> c \<in> set [CHR '' '', CHR 0x09, CHR 0x0A, CHR 0x0B, CHR 0x0C, CHR 0x0D]"

definition isdigit :: "char \<Rightarrow> bool" where
  "isdigit c \<longleftrightarrow> 48 \<le> (of_char c :: nat) \<and> (of_char c :: nat) \<le> 57"

definition digit_val :: "char \<Rightarrow> nat" where
  "digit_val c = of_char c - 48"

definition dec_value :: "string \<Rightarrow> nat" where
  "dec_value ds = foldl (\<lambda>n c. 10 * n + digit_val c) 0 ds"

definition scan_sign :: "string \<Rightarrow> bool \<times> string" where
  "scan_sign s =
     (case s of
        [] \<Rightarrow> (False, s)
      | c # r \<Rightarrow> if c = CHR ''-'' then (True, r) else if c = CHR ''+'' then (False, r) else (False, s))"

text \<open>The sign, the magnitude and the rest of the input; \<open>None\<close> is a matching failure.\<close>

definition scan_integer :: "string \<Rightarrow> (bool \<times> nat \<times> string) option" where
  "scan_integer s =
     (let (neg, s2) = scan_sign (dropWhile isspace s);
          ds = takeWhile isdigit s2
      in if ds = [] then None else Some (neg, dec_value ds, dropWhile isdigit s2))"

definition strtol :: "bool \<Rightarrow> nat \<Rightarrow> int" where
  "strtol neg n = max (- (2 ^ 63)) (min (2 ^ 63 - 1) (if neg then - int n else int n))"

definition strtoul :: "bool \<Rightarrow> nat \<Rightarrow> 64 word" where
  "strtoul neg n = (if 2 ^ 64 \<le> n then - 1 else if neg then - of_nat n else of_nat n)"

definition scan_d :: "bool \<Rightarrow> nat \<Rightarrow> 32 word" where
  "scan_d neg n = word_of_int (strtol neg n)"

definition scan_u :: "bool \<Rightarrow> nat \<Rightarrow> 32 word" where
  "scan_u neg n = ucast (strtoul neg n)"

text \<open>
  \<^verbatim>\<open>sscanf(str, "c:%d:%" PRIu32, &pid, &ticks) == 2\<close>: \<open>Some (pid, ticks)\<close> when both
  conversions were assigned, \<open>None\<close> for every other return value. The literal
  characters of the format must match exactly; what follows the second number is ignored.
\<close>

definition sscanf_clock :: "string \<Rightarrow> (32 word \<times> 32 word) option" where
  "sscanf_clock str =
     (case str of
        c0 # c1 # r \<Rightarrow>
          if c0 = CHR ''c'' \<and> c1 = CHR '':'' then
            (case scan_integer r of
               None \<Rightarrow> None
             | Some (neg, n, r1) \<Rightarrow>
                 (case r1 of
                    c2 # r2 \<Rightarrow>
                      if c2 = CHR '':'' then
                        (case scan_integer r2 of
                           None \<Rightarrow> None
                         | Some (neg', m, r3) \<Rightarrow> Some (scan_d neg n, scan_u neg' m))
                      else None
                  | [] \<Rightarrow> None))
          else None
      | _ \<Rightarrow> None)"

subsection \<open>The clock and cursor service\<close>

record timeval =
  tv_sec :: "64 word"     \<comment> \<open>\<^verbatim>\<open>time_t\<close>, 64 bits wide (LP64)\<close>
  tv_usec :: "64 word"

record w_clockspec_query =
  is_timestamp :: bool
  tv :: timeval
  is_fresh_instance :: bool
  since_ticks :: "32 word"   \<comment> \<open>the field \<^verbatim>\<open>ticks\<close> of \<^verbatim>\<open>struct w_clockspec_query\<close>\<close>

text \<open>The two fields of a root that the listener reads and writes.\<close>

record w_root =
  ticks :: "32 word"
  cursors :: "string \<rightharpoonup> 32 word"

text \<open>The text that \<^verbatim>\<open>snprintf(buf, bufsize, "c:%d:%" PRIu32, pid, ticks)\<close> formats.\<close>

definition clock_string :: "int \<Rightarrow> nat \<Rightarrow> string" where
  "clock_string pid t = ''c:'' @ printf_d pid @ '':'' @ printf_u t"

text \<open>
  \<^verbatim>\<open>clock_id_string\<close> returns whether the text fitted, and the buffer, which holds at
  most \<open>bufsize - 1\<close> characters of it.
\<close>

definition clock_id_string :: "env \<Rightarrow> 32 word \<Rightarrow> nat \<Rightarrow> bool \<times> string" where
  "clock_id_string e t bufsize =
     (let s = clock_string (sint (getpid e)) (unat t)
      in (length s < bufsize, take (bufsize - 1) s))"

definition current_clock_id_string :: "env \<Rightarrow> w_root \<Rightarrow> nat \<Rightarrow> bool \<times> string" where
  "current_clock_id_string e root bufsize = clock_id_string e (ticks root) bufsize"

definition annotate_with_clock :: "env \<Rightarrow> w_root \<Rightarrow> json \<Rightarrow> json" where
  "annotate_with_clock e root resp =
     (case current_clock_id_string e root 128 of
        (True, buf) \<Rightarrow> set_prop resp ''clock'' (JString buf)
      | (False, buf) \<Rightarrow> resp)"

definition cursor_prefix :: "string \<Rightarrow> bool" where
  "cursor_prefix str = (case str of c0 # c1 # r \<Rightarrow> c0 = CHR ''n'' \<and> c1 = CHR '':'' | _ \<Rightarrow> False)"

text \<open>
  The cursor branch of \<^verbatim>\<open>w_parse_clockspec\<close>: the whole string, prefix included, is the
  key of the cursor table.
\<close>

definition resolve_cursor ::
  "w_root \<Rightarrow> string \<Rightarrow> w_clockspec_query \<Rightarrow> bool \<times> w_clockspec_query \<times> w_root option" where
  "resolve_cursor root str since =
     (let found = cursors root str;
          since1 = since\<lparr>is_timestamp := False, is_fresh_instance := (found = None)\<rparr>;
          since2 = (case found of
                      None \<Rightarrow> since1\<lparr>since_ticks := 0\<rparr>
                    | Some ticks_val \<Rightarrow> since1\<lparr>since_ticks := ticks_val\<rparr>);
          bumped = ticks root + 1
      in (True, since2, Some (root\<lparr>ticks := bumped, cursors := (cursors root)(str \<mapsto> bumped)\<rparr>)))"

text \<open>The clock-id branch: what follows a successful \<^verbatim>\<open>sscanf\<close>.\<close>

definition resolve_clock ::
  "env \<Rightarrow> w_root option \<Rightarrow> 32 word \<Rightarrow> 32 word \<Rightarrow> w_clockspec_query
     \<Rightarrow> bool \<times> w_clockspec_query \<times> w_root option" where
  "resolve_clock e root pid t since =
     (let since1 = since\<lparr>since_ticks := t, is_timestamp := False\<rparr>
      in if pid = getpid e then
           (case root of
              Some r \<Rightarrow>
                if since_ticks since1 = ticks r then (True, since1, Some (r\<lparr>ticks := ticks r + 1\<rparr>))
                else (True, since1, root)
            | None \<Rightarrow> (True, since1, root))
         else (True, since1\<lparr>is_fresh_instance := True, since_ticks := 0\<rparr>, root))"

text \<open>
  \<^verbatim>\<open>w_parse_clockspec(root, value, since, allow_cursor)\<close>. The structure \<open>since\<close> is
  written in place, so the model takes it as the caller left it and returns it updated,
  with the result and the root. The call of \<^verbatim>\<open>w_log\<close> in the cursor branch writes to
  the log only and is left out.
\<close>

definition w_parse_clockspec ::
  "env \<Rightarrow> w_root option \<Rightarrow> json option \<Rightarrow> w_clockspec_query \<Rightarrow> bool
     \<Rightarrow> bool \<times> w_clockspec_query \<times> w_root option" where
  "w_parse_clockspec e root val since allow_cursor =
     (if json_is_integer val then
        (True, since\<lparr>is_timestamp := True,
                      tv := \<lparr>tv_sec = json_integer_value val, tv_usec = 0\<rparr>\<rparr>, root)
      else
        (case json_string_value val of
           None \<Rightarrow> (False, since, root)
         | Some str \<Rightarrow>
             if allow_cursor \<and> root \<noteq> None \<and> cursor_prefix str then
               resolve_cursor (the root) str since
             else
               (case sscanf_clock str of
                  Some (pid, t) \<Rightarrow> resolve_clock e root pid t since
                | None \<Rightarrow> (False, since, root))))"

text \<open>
  Successive calls of \<^verbatim>\<open>w_parse_clockspec\<close> with the same value against the same
  root, one per caller's \<open>since\<close> structure, with nothing else writing the root in
  between: each call starts from the root the previous one left.
\<close>

fun parse_clockspec_calls ::
  "env \<Rightarrow> json option \<Rightarrow> bool \<Rightarrow> w_root option \<Rightarrow> w_clockspec_query list
     \<Rightarrow> (bool \<times> w_clockspec_query) list" where
  "parse_clockspec_calls e val allow_cursor root [] = []"
| "parse_clockspec_calls e val allow_cursor root (since # rest) =
     (case w_parse_clockspec e root val since allow_cursor of
        (ok, since', root') \<Rightarrow> (ok, since') # parse_clockspec_calls e val allow_cursor root' rest)"

subsection \<open>Sessions and their outbound queues\<close>

text \<open>
  Response nodes and client structures live in memory and are named by their addresses.
  The memory is a total function from addresses to structures, with the set of the nodes
  that are allocated; that the code only touches allocated nodes follows from the
  invariant \<open>wf_queues\<close> below. Of \<^verbatim>\<open>struct watchman_client\<close> the fields that this
  file uses are kept; \<open>ping\<close> counts the bytes written to the wakeup pipe and \<open>sent\<close>
  lists what was written to the connection, each document with the encoding it was
  written in.
\<close>

type_synonym resp_ptr = nat
type_synonym client_ptr = nat

record watchman_client_response =
  json :: "json option"
  "next" :: "resp_ptr option"

record watchman_client =
  fd :: int
  ping :: nat
  log_level :: int
  pdu_type :: int
  head :: "resp_ptr option"
  tail :: "resp_ptr option"
  sent :: "(int \<times> json option) list"

text \<open>
  The process state: the registry \<^verbatim>\<open>clients\<close> (null until the listener starts; the
  entries in iteration order, each a connection handle and its client), the two memories,
  and the documents handed to \<^verbatim>\<open>json_decref\<close> so far.
\<close>

record server =
  clients :: "(int \<times> client_ptr) list option"
  client_mem :: "client_ptr \<Rightarrow> watchman_client"
  resp_mem :: "resp_ptr \<Rightarrow> watchman_client_response"
  resp_live :: "resp_ptr set"
  decrefs :: "json list"

definition json_decref :: "json option \<Rightarrow> server \<Rightarrow> server" where
  "json_decref j s = (case j of None \<Rightarrow> s | Some d \<Rightarrow> s\<lparr>decrefs := decrefs s @ [d]\<rparr>)"

definition update_client :: "client_ptr \<Rightarrow> (watchman_client \<Rightarrow> watchman_client) \<Rightarrow> server \<Rightarrow> server" where
  "update_client c f s = s\<lparr>client_mem := (client_mem s)(c := f (client_mem s c))\<rparr>"

definition update_resp ::
  "resp_ptr \<Rightarrow> (watchman_client_response \<Rightarrow> watchman_client_response) \<Rightarrow> server \<Rightarrow> server" where
  "update_resp p f s = s\<lparr>resp_mem := (resp_mem s)(p := f (resp_mem s p))\<rparr>"

text \<open>\<^verbatim>\<open>calloc\<close> returned \<open>p\<close>: the node is allocated and zero-filled.\<close>

definition calloc_resp :: "resp_ptr \<Rightarrow> server \<Rightarrow> server" where
  "calloc_resp p s =
     s\<lparr>resp_mem := (resp_mem s)(p := \<lparr>json = None, next = None\<rparr>), resp_live := insert p (resp_live s)\<rparr>"

definition free_resp :: "resp_ptr \<Rightarrow> server \<Rightarrow> server" where
  "free_resp p s = s\<lparr>resp_live := resp_live s - {p}\<rparr>"

text \<open>
  \<^verbatim>\<open>enqueue_response(client, json, ping)\<close>. The first argument is what \<^verbatim>\<open>calloc\<close>
  returns in this call. The write to the wakeup pipe is taken to succeed (its result is
  ignored by the code).
\<close>

definition enqueue_response ::
  "resp_ptr option \<Rightarrow> client_ptr \<Rightarrow> json option \<Rightarrow> bool \<Rightarrow> server \<Rightarrow> bool \<times> server" where
  "enqueue_response calloc_result client js ping_flag s =
     (case calloc_result of
        None \<Rightarrow> (False, s)
      | Some resp \<Rightarrow>
          (let s1 = calloc_resp resp s;
               s2 = update_resp resp (\<lambda>r. r\<lparr>json := js\<rparr>) s1;
               s3 = (case tail (client_mem s2 client) of
                       Some t \<Rightarrow> update_resp t (\<lambda>r. r\<lparr>next := Some resp\<rparr>) s2
                     | None \<Rightarrow> update_client client (\<lambda>c. c\<lparr>head := Some resp\<rparr>) s2);
               s4 = update_client client (\<lambda>c. c\<lparr>tail := Some resp\<rparr>) s3;
               s5 = (if ping_flag then update_client client (\<lambda>c. c\<lparr>ping := ping c + 1\<rparr>) s4 else s4)
           in (True, s5)))"

definition send_and_dispose_response ::
  "resp_ptr option \<Rightarrow> client_ptr \<Rightarrow> json option \<Rightarrow> server \<Rightarrow> server" where
  "send_and_dispose_response calloc_result client response s =
     (case enqueue_response calloc_result client response False s of
        (True, s') \<Rightarrow> s'
      | (False, s') \<Rightarrow> json_decref response s')"

text \<open>
  \<^verbatim>\<open>send_error_response(client, fmt, ...)\<close>; \<open>text\<close> is the message that the format
  and its arguments expand to. \<^verbatim>\<open>vsnprintf\<close> keeps at most
  \<open>WATCHMAN_NAME_MAX - 1\<close> characters of it.
\<close>

definition send_error_response ::
  "env \<Rightarrow> resp_ptr option \<Rightarrow> client_ptr \<Rightarrow> string \<Rightarrow> server \<Rightarrow> server" where
  "send_error_response e calloc_result client text s =
     (let resp = make_response e;
          buf = take (WATCHMAN_NAME_MAX e - 1) text;
          resp' = set_prop resp ''error'' (JString buf)
      in send_and_dispose_response calloc_result client (Some resp') s)"

text \<open>
  One round of the loop \<^verbatim>\<open>while (client->head)\<close> of \<^verbatim>\<open>client_thread\<close>: the head
  is taken off the queue under the lock (\<open>dequeue_head\<close>), then written to the connection,
  released and freed.
\<close>

definition dequeue_head :: "client_ptr \<Rightarrow> server \<Rightarrow> resp_ptr option \<times> server" where
  "dequeue_head client s =
     (case head (client_mem s client) of
        None \<Rightarrow> (None, s)
      | Some resp \<Rightarrow>
          (let s1 = update_client client (\<lambda>c. c\<lparr>head := next (resp_mem s resp)\<rparr>) s;
               s2 = (if tail (client_mem s1 client) = Some resp
                     then update_client client (\<lambda>c. c\<lparr>tail := None\<rparr>) s1 else s1)
           in (Some resp, s2)))"

definition send_one_response :: "client_ptr \<Rightarrow> server \<Rightarrow> server" where
  "send_one_response client s =
     (case dequeue_head client s of
        (None, s1) \<Rightarrow> s1
      | (Some resp, s1) \<Rightarrow>
          (let s2 = update_client client
                      (\<lambda>c. c\<lparr>sent := sent c @ [(pdu_type c, json (resp_mem s1 resp))]\<rparr>) s1;
               s3 = json_decref (json (resp_mem s2 resp)) s2
           in free_resp resp s3))"

subsection \<open>The dispatcher\<close>

text \<open>
  A command handler gets the client and the request and may change the state. The
  registry \<^verbatim>\<open>command_funcs\<close> maps command names to handlers.
\<close>

type_synonym watchman_command_func = "client_ptr \<Rightarrow> json option \<Rightarrow> server \<Rightarrow> server"

definition dispatch_command ::
  "env \<Rightarrow> (string \<rightharpoonup> watchman_command_func) \<Rightarrow> resp_ptr option \<Rightarrow> client_ptr \<Rightarrow> json option
     \<Rightarrow> server \<Rightarrow> bool \<times> server" where
  "dispatch_command e command_funcs calloc_result client args s =
     (if json_array_size args = 0 then
        (False, send_error_response e calloc_result client
                  ''invalid command (expected an array with some elements!)'' s)
      else
        (case json_string_value (json_array_get args 0) of
           None \<Rightarrow>
             (False, send_error_response e calloc_result client
                       ''invalid command: expected element 0 to be the command name'' s)
         | Some cmd_name \<Rightarrow>
             (case command_funcs cmd_name of
                Some func \<Rightarrow> (True, func client args s)
              | None \<Rightarrow>
                  (False, send_error_response e calloc_result client
                            (''unknown command '' @ cmd_name) s))))"

text \<open>
  What \<^verbatim>\<open>client_thread\<close> does with a decoded request: it records the encoding the
  request came in (\<open>reader_pdu_type\<close>), dispatches the request, ignores the result,
  releases the request and goes on to send the queued responses.
\<close>

definition client_thread_request ::
  "env \<Rightarrow> (string \<rightharpoonup> watchman_command_func) \<Rightarrow> resp_ptr option \<Rightarrow> client_ptr \<Rightarrow> int \<Rightarrow> json
     \<Rightarrow> server \<Rightarrow> server" where
  "client_thread_request e command_funcs calloc_result client reader_pdu_type request s =
     (let s1 = update_client client (\<lambda>c. c\<lparr>pdu_type := reader_pdu_type\<rparr>) s;
          s2 = snd (dispatch_command e command_funcs calloc_result client (Some request) s1)
      in json_decref (Some request) s2)"

subsection \<open>The log broadcaster\<close>

text \<open>
  The test \<^verbatim>\<open>client->log_level != W_LOG_OFF && client->log_level >= level\<close>.
\<close>

definition log_wanted :: "env \<Rightarrow> int \<Rightarrow> watchman_client \<Rightarrow> bool" where
  "log_wanted e level client \<longleftrightarrow> log_level client \<noteq> W_LOG_OFF e \<and> log_level client \<ge> level"

text \<open>
  The body of the loop of \<^verbatim>\<open>w_log_to_clients\<close> for one client; the first argument
  is what \<^verbatim>\<open>calloc\<close> returns in the \<^verbatim>\<open>enqueue_response\<close> for it.
\<close>

definition log_to_client ::
  "env \<Rightarrow> resp_ptr option \<Rightarrow> int \<Rightarrow> string \<Rightarrow> client_ptr \<Rightarrow> server \<Rightarrow> server" where
  "log_to_client e calloc_result level buf client s =
     (if log_wanted e level (client_mem s client) then
        (let js = set_prop (make_response e) ''log'' (JString buf)
         in case enqueue_response calloc_result client (Some js) True s of
              (True, s1) \<Rightarrow> s1
            | (False, s1) \<Rightarrow> json_decref (Some js) s1)
      else s)"

text \<open>
  The loop over the entries of the registry. \<open>callocs client\<close> is what \<^verbatim>\<open>calloc\<close>
  returns while the loop is at that client.
\<close>

fun log_to_each ::
  "env \<Rightarrow> (client_ptr \<Rightarrow> resp_ptr option) \<Rightarrow> int \<Rightarrow> string \<Rightarrow> (int \<times> client_ptr) list
     \<Rightarrow> server \<Rightarrow> server" where
  "log_to_each e callocs level buf [] s = s"
| "log_to_each e callocs level buf ((key, client) # rest) s =
     log_to_each e callocs level buf rest (log_to_client e (callocs client) level buf client s)"

definition w_log_to_clients ::
  "env \<Rightarrow> (client_ptr \<Rightarrow> resp_ptr option) \<Rightarrow> int \<Rightarrow> string \<Rightarrow> server \<Rightarrow> server" where
  "w_log_to_clients e callocs level buf s =
     (case clients s of
        None \<Rightarrow> s
      | Some entries \<Rightarrow> log_to_each e callocs level buf entries s)"

subsection \<open>The shape of the outbound queues\<close>

text \<open>
  \<open>chain nx p as\<close>: starting at pointer \<open>p\<close> and following the links \<open>nx\<close>, the nodes
  \<open>as\<close> are met in this order and then the null pointer. \<open>queue_nodes s c as\<close>: the
  queue of client \<open>c\<close> consists of the nodes \<open>as\<close>, \<open>head\<close> pointing to the first and
  \<open>tail\<close> to the last. \<open>wf_queues s C Q\<close>: every client \<open>c\<close> of \<open>C\<close> has the queue
  \<open>Q c\<close>, made of allocated nodes, and the queues of two clients share no node.
\<close>

fun chain :: "(resp_ptr \<Rightarrow> resp_ptr option) \<Rightarrow> resp_ptr option \<Rightarrow> resp_ptr list \<Rightarrow> bool" where
  "chain nx p [] = (p = None)"
| "chain nx p (a # as) = (p = Some a \<and> chain nx (nx a) as)"

definition next_of :: "server \<Rightarrow> resp_ptr \<Rightarrow> resp_ptr option" where
  "next_of s p = next (resp_mem s p)"

definition queue_nodes :: "server \<Rightarrow> client_ptr \<Rightarrow> resp_ptr list \<Rightarrow> bool" where
  "queue_nodes s c as \<longleftrightarrow>
     chain (next_of s) (head (client_mem s c)) as
     \<and> tail (client_mem s c) = (if as = [] then None else Some (last as))"

definition wf_queues :: "server \<Rightarrow> client_ptr set \<Rightarrow> (client_ptr \<Rightarrow> resp_ptr list) \<Rightarrow> bool" where
  "wf_queues s C Q \<longleftrightarrow>
     (\<forall>c\<in>C. queue_nodes s c (Q c) \<and> set (Q c) \<subseteq> resp_live s)
     \<and> (\<forall>c\<in>C. \<forall>c'\<in>C. c \<noteq> c' \<longrightarrow> set (Q c) \<inter> set (Q c') = {})"

text \<open>
  The invariant of the specification: \<open>head\<close> is null exactly when \<open>tail\<close> is, and
  otherwise \<open>tail\<close> is reached from \<open>head\<close> by following \<open>next\<close>.
\<close>

inductive reaches :: "(resp_ptr \<Rightarrow> resp_ptr option) \<Rightarrow> resp_ptr \<Rightarrow> resp_ptr \<Rightarrow> bool" where
  here: "reaches nx p p"
| follow: "nx p = Some q \<Longrightarrow> reaches nx q r \<Longrightarrow> reaches nx p r"

code_pred (modes: i \<Rightarrow> i \<Rightarrow> i \<Rightarrow> bool) reaches .

definition queue_invariant :: "server \<Rightarrow> client_ptr \<Rightarrow> bool" where
  "queue_invariant s c =
     (case (head (client_mem s c), tail (client_mem s c)) of
        (None, None) \<Rightarrow> True
      | (Some h, Some t) \<Rightarrow> reaches (next_of s) h t
      | _ \<Rightarrow> False)"

text \<open>
  The states that the queue operations lead to from a state \<open>s0\<close>: any client may be
  given a response (\<^verbatim>\<open>calloc\<close> returns a node that is not allocated, or fails), and
  any client's worker may send its first response. The worker frees a node in the step
  that takes it off the queue.
\<close>

inductive runs :: "server \<Rightarrow> server \<Rightarrow> bool" for s0 where
  start: "runs s0 s0"
| enqueue: "runs s0 s \<Longrightarrow> p \<notin> resp_live s \<Longrightarrow> runs s0 (snd (enqueue_response (Some p) c js pf s))"
| enqueue_failed: "runs s0 s \<Longrightarrow> runs s0 (snd (enqueue_response None c js pf s))"
| dequeue: "runs s0 s \<Longrightarrow> runs s0 (send_one_response c s)"

text \<open>The documents of an error response and of a log message.\<close>

definition error_document :: "env \<Rightarrow> string \<Rightarrow> json" where
  "error_document e text =
     JObject [(''version'', JString (PACKAGE_VERSION e)),
              (''error'', JString (take (WATCHMAN_NAME_MAX e - 1) text))]"

definition log_document :: "env \<Rightarrow> string \<Rightarrow> json" where
  "log_document e buf = JObject [(''version'', JString (PACKAGE_VERSION e)), (''log'', JString buf)]"

text \<open>
  \<open>error_sent e text r c C Q s s'\<close>: going from \<open>s\<close> to \<open>s'\<close>, the error document for
  \<open>text\<close> was sent to client \<open>c\<close>, where \<open>r\<close> is what \<^verbatim>\<open>calloc\<close> returned. With a
  node \<open>p\<close>, the queue of \<open>c\<close> is its former queue followed by \<open>p\<close>, which holds the
  document; the other queues of \<open>C\<close> and the documents of all other nodes are as before.
  Without a node, the document was released and nothing else changed. Either way the
  registry of sessions is as before.
\<close>

definition error_sent ::
  "env \<Rightarrow> string \<Rightarrow> resp_ptr option \<Rightarrow> client_ptr \<Rightarrow> client_ptr set \<Rightarrow> (client_ptr \<Rightarrow> resp_ptr list)
     \<Rightarrow> server \<Rightarrow> server \<Rightarrow> bool" where
  "error_sent e text r c C Q s s' \<longleftrightarrow>
     clients s' = clients s
     \<and> (case r of
          Some p \<Rightarrow>
            wf_queues s' C (Q(c := Q c @ [p]))
            \<and> json (resp_mem s' p) = Some (error_document e text)
            \<and> (\<forall>a. a \<noteq> p \<longrightarrow> json (resp_mem s' a) = json (resp_mem s a))
            \<and> decrefs s' = decrefs s
        | None \<Rightarrow> s' = s\<lparr>decrefs := decrefs s @ [error_document e text]\<rparr>)"

text \<open>
  The nodes that \<^verbatim>\<open>w_log_to_clients\<close> appends to the queue of client \<open>c\<close>: one when
  the client wants the level and the node was allocated, none otherwise.
\<close>

definition log_nodes ::
  "env \<Rightarrow> int \<Rightarrow> (client_ptr \<Rightarrow> resp_ptr option) \<Rightarrow> server \<Rightarrow> client_ptr \<Rightarrow> resp_ptr list" where
  "log_nodes e level callocs s c =
     (if log_wanted e level (client_mem s c) then (case callocs c of Some p \<Rightarrow> [p] | None \<Rightarrow> []) else [])"

text \<open>
  The clients of the registry, in its order, for which \<^verbatim>\<open>w_log_to_clients\<close> builds
  a document and fails to allocate the node.
\<close>

definition log_failed ::
  "env \<Rightarrow> int \<Rightarrow> (client_ptr \<Rightarrow> resp_ptr option) \<Rightarrow> server \<Rightarrow> (int \<times> client_ptr) list \<Rightarrow> client_ptr list" where
  "log_failed e level callocs s entries =
     filter (\<lambda>c. log_wanted e level (client_mem s c) \<and> callocs c = None) (map snd entries)"

text \<open>
  The eligibility test in the words of the specification: the session's log level is
  enabled and its threshold is at most the level of the message.
\<close>

definition spec_log_eligible :: "env \<Rightarrow> int \<Rightarrow> int \<Rightarrow> bool" where
  "spec_log_eligible e threshold level \<longleftrightarrow> threshold \<noteq> W_LOG_OFF e \<and> threshold \<le> level"

text \<open>A document built from a new response by setting members one after the other.\<close>

definition set_props :: "json \<Rightarrow> (string \<times> json) list \<Rightarrow> json" where
  "set_props j ms = foldl (\<lambda>j (k, v). set_prop j k v) j ms"

subsection \<open>Sample values\<close>

definition example_env :: env where
  "example_env = \<lparr>PACKAGE_VERSION = ''2.5'', WATCHMAN_NAME_MAX = 4096, W_LOG_OFF = 0, getpid = 100\<rparr>"

definition zero_since :: w_clockspec_query where
  "zero_since = \<lparr>is_timestamp = False, tv = \<lparr>tv_sec = 0, tv_usec = 0\<rparr>,
                 is_fresh_instance = False, since_ticks = 0\<rparr>"

definition example_root :: w_root where
  "example_root = \<lparr>ticks = 7, cursors = Map.empty\<rparr>"

definition zero_client :: watchman_client where
  "zero_client = \<lparr>fd = 0, ping = 0, log_level = 0, pdu_type = 0, head = None, tail = None, sent = []\<rparr>"

definition fresh_server :: server where
  "fresh_server = \<lparr>clients = Some [], client_mem = (\<lambda>c. zero_client),
                    resp_mem = (\<lambda>p. \<lparr>json = None, next = None\<rparr>), resp_live = {}, decrefs = []\<rparr>"

definition example_run :: server where
  "example_run =
     send_one_response 0
       (snd (enqueue_response (Some 2) 0 (Some JNull) True
          (snd (enqueue_response (Some 1) 0 (Some JTrue) False fresh_server))))"

text \<open>
  Two sessions: handle 5 at address 3 with log level 2, and handle 6 at address 4 with
  logging off; no response is queued.
\<close>

definition log_server :: server where
  "log_server =
     fresh_server\<lparr>clients := Some [(5, 3), (6, 4)],
                   client_mem := (\<lambda>c. zero_client)(3 := zero_client\<lparr>fd := 5, log_level := 2\<rparr>,
                                                     4 := zero_client\<lparr>fd := 6\<rparr>)\<rparr>"

section \<open>Properties\<close>

subsection \<open>Printing and scanning decimal numbers\<close>

lemma digit_val_digit_char: "d < 10 \<Longrightarrow> digit_val (digit_char d) = d"
  by (simp add: digit_val_def digit_char_def)

lemma isdigit_digit_char: "d < 10 \<Longrightarrow> isdigit (digit_char d)"
  by (simp add: isdigit_def digit_char_def)

lemma dec_digits_all: "list_all isdigit (dec_digits n)"
proof (induction n rule: dec_digits.induct)
  case (1 n)
  show ?case
  proof (cases "n < 10")
    case True
    then show ?thesis by (simp add: dec_digits.simps [of n] isdigit_digit_char)
  next
    case False
    then show ?thesis using 1 by (simp add: dec_digits.simps [of n] isdigit_digit_char)
  qed
qed

lemma dec_digits_nonempty: "dec_digits n \<noteq> []"
  by (simp add: dec_digits.simps [of n])

lemma dec_value_snoc: "dec_value (ds @ [c]) = 10 * dec_value ds + digit_val c"
  by (simp add: dec_value_def)

lemma dec_value_dec_digits: "dec_value (dec_digits n) = n"
proof (induction n rule: dec_digits.induct)
  case (1 n)
  show ?case
  proof (cases "n < 10")
    case True
    then show ?thesis by (simp add: dec_digits.simps [of n] dec_value_def digit_val_digit_char)
  next
    case False
    then have "dec_value (dec_digits n) = 10 * (n div 10) + n mod 10"
      using 1 by (simp add: dec_digits.simps [of n] dec_value_snoc digit_val_digit_char)
    then show ?thesis by simp
  qed
qed

lemma not_isspace_digit: "isdigit c \<Longrightarrow> \<not> isspace c"
  by (auto simp: isdigit_def isspace_def)

lemma not_sign_digit: "isdigit c \<Longrightarrow> c \<noteq> CHR ''-'' \<and> c \<noteq> CHR ''+''"
  by (auto simp: isdigit_def)

lemma not_isdigit_colon: "\<not> isdigit CHR '':''" "\<not> isspace CHR ''-''"
  by (simp_all add: isdigit_def isspace_def)

lemma takeWhile_digits:
  "list_all isdigit ds \<Longrightarrow> (rest = [] \<or> \<not> isdigit (hd rest)) \<Longrightarrow> takeWhile isdigit (ds @ rest) = ds"
  by (induction ds) (auto simp: neq_Nil_conv takeWhile_eq_Nil_iff)

lemma dropWhile_digits:
  "list_all isdigit ds \<Longrightarrow> (rest = [] \<or> \<not> isdigit (hd rest)) \<Longrightarrow> dropWhile isdigit (ds @ rest) = rest"
  by (induction ds) (auto simp: neq_Nil_conv dropWhile_eq_self_iff)

lemma dec_digits_hd: "isdigit (hd (dec_digits n @ rest))"
  using dec_digits_all [of n] dec_digits_nonempty [of n] by (cases "dec_digits n") auto

lemma scan_integer_unsigned:
  assumes "rest = [] \<or> \<not> isdigit (hd rest)"
  shows "scan_integer (dec_digits n @ rest) = Some (False, n, rest)"
proof -
  obtain c cs where cs: "dec_digits n = c # cs"
    using dec_digits_nonempty [of n] by (cases "dec_digits n") auto
  have c: "isdigit c" using dec_digits_all [of n] cs by simp
  have "dropWhile isspace (dec_digits n @ rest) = dec_digits n @ rest"
    using c cs by (simp add: not_isspace_digit)
  moreover have "scan_sign (dec_digits n @ rest) = (False, dec_digits n @ rest)"
    using c cs not_sign_digit [of c] by (simp add: scan_sign_def)
  ultimately show ?thesis
    using assms dec_digits_all [of n] dec_digits_nonempty [of n]
    by (simp add: scan_integer_def takeWhile_digits dropWhile_digits dec_value_dec_digits)
qed

lemma scan_integer_negative:
  assumes "rest = [] \<or> \<not> isdigit (hd rest)"
  shows "scan_integer (CHR ''-'' # dec_digits n @ rest) = Some (True, n, rest)"
  using assms dec_digits_all [of n] dec_digits_nonempty [of n]
  by (simp add: scan_integer_def scan_sign_def not_isdigit_colon
      takeWhile_digits dropWhile_digits dec_value_dec_digits)

lemma scan_integer_printf_d:
  assumes "rest = [] \<or> \<not> isdigit (hd rest)"
  shows "scan_integer (printf_d i @ rest) = Some (i < 0, nat \<bar>i\<bar>, rest)"
proof (cases "i < 0")
  case True
  then show ?thesis using scan_integer_negative [OF assms, of "nat (- i)"] by (simp add: printf_d_def)
next
  case False
  then show ?thesis using scan_integer_unsigned [OF assms, of "nat i"] by (simp add: printf_d_def)
qed

lemma sscanf_clock_string:
  "sscanf_clock (clock_string pid t) = Some (scan_d (pid < 0) (nat \<bar>pid\<bar>), scan_u False t)"
proof -
  have 1: "scan_integer (printf_d pid @ CHR '':'' # printf_u t) = Some (pid < 0, nat \<bar>pid\<bar>, CHR '':'' # printf_u t)"
    by (rule scan_integer_printf_d) (simp add: not_isdigit_colon)
  have 2: "scan_integer (printf_u t) = Some (False, t, [])"
    using scan_integer_unsigned [of "[]" t] by (simp add: printf_u_def)
  show ?thesis
    by (simp add: sscanf_clock_def clock_string_def 1 2)
qed

lemma scan_d_in_range:
  assumes "- (2 ^ 63) \<le> i" "i < 2 ^ 63"
  shows "scan_d (i < 0) (nat \<bar>i\<bar>) = word_of_int i"
  using assms by (auto simp: scan_d_def strtol_def)

lemma scan_u_in_range:
  assumes "t < 2 ^ 64"
  shows "scan_u False t = of_nat t"
proof -
  have "unat (of_nat t :: 64 word) = t"
    using assms by (simp add: unat_of_nat)
  then have "ucast (of_nat t :: 64 word) = (of_nat t :: 32 word)"
    by (metis of_nat_unat)
  then show ?thesis using assms by (simp add: scan_u_def strtoul_def)
qed

lemma sscanf_clock_own:
  "sscanf_clock (clock_string (sint pid) (unat t)) = Some (pid, t)"
proof -
  have "- (2 ^ 63) \<le> sint pid" "sint pid < 2 ^ 63"
    using sint_ge [of pid] sint_lt [of pid] by simp_all
  then have "scan_d (sint pid < 0) (nat \<bar>sint pid\<bar>) = pid"
    by (simp add: scan_d_in_range)
  moreover have "unat t < 2 ^ 64"
    using unsigned_less [of t, where 'a = nat] by simp
  then have "scan_u False (unat t) = t"
    by (simp add: scan_u_in_range)
  ultimately show ?thesis by (simp add: sscanf_clock_string)
qed

lemma dec_digits_length: "n < 10 ^ k \<Longrightarrow> 0 < k \<Longrightarrow> length (dec_digits n) \<le> k"
proof (induction n arbitrary: k rule: dec_digits.induct)
  case (1 n)
  show ?case
  proof (cases "n < 10")
    case True
    then show ?thesis using 1(3) by (simp add: dec_digits.simps [of n])
  next
    case False
    obtain j where k: "k = Suc j" using 1(3) by (cases k) auto
    have "0 < j" using False 1(2) k by (cases j) auto
    moreover have "n div 10 < 10 ^ j" using 1(2) k by (simp add: less_mult_imp_div_less)
    ultimately have "length (dec_digits (n div 10)) \<le> j" using 1(1) [OF False] by simp
    then show ?thesis using False k by (simp add: dec_digits.simps [of n])
  qed
qed

lemma clock_string_length: "length (clock_string (sint (pid :: 32 word)) (unat (t :: 32 word))) \<le> 24"
proof -
  have "nat \<bar>sint pid\<bar> < 10 ^ 10"
    using sint_ge [of pid] sint_lt [of pid] by simp
  then have a: "length (dec_digits (nat \<bar>sint pid\<bar>)) \<le> 10" by (rule dec_digits_length) simp
  have "unat t < 10 ^ 10"
    using unsigned_less [of t, where 'a = nat] by simp
  then have b: "length (dec_digits (unat t)) \<le> 10" by (rule dec_digits_length) simp
  have "length (printf_d (sint pid)) \<le> 11"
    using a by (auto simp: printf_d_def abs_if split: if_splits)
  then show ?thesis using b by (simp add: clock_string_def printf_u_def)
qed

lemma clock_id_string_fits:
  "clock_id_string e t 128 = (True, clock_string (sint (getpid e)) (unat t))"
  using clock_string_length [of "getpid e" t] by (simp add: clock_id_string_def Let_def)

lemmas scan_eval = sscanf_clock_def scan_integer_def scan_sign_def isspace_def isdigit_def
  dec_value_def digit_val_def scan_d_def scan_u_def strtol_def strtoul_def

lemma example_clock_strings:
  "clock_string 100 7 = ''c:100:7''" "clock_string 100 6 = ''c:100:6''" "clock_string 7 5 = ''c:7:5''"
  "clock_string 100 5 = ''c:100:5''"
  by (simp_all add: clock_string_def printf_d_def printf_u_def dec_digits.simps
      digit_char_def char_of_eq_iff)

subsection \<open>Clock specifications\<close>

text \<open>
  C9. An integer value is a timestamp: the call succeeds, sets \<open>is_timestamp\<close>, stores the
  value as the seconds with zero microseconds, and returns the root as it was.
\<close>

theorem timestamp_classification:
  "w_parse_clockspec e root (Some (JInteger v)) since allow_cursor =
     (True, since\<lparr>is_timestamp := True, tv := \<lparr>tv_sec = v, tv_usec = 0\<rparr>\<rparr>, root)"
  by (simp add: w_parse_clockspec_def)

text \<open>
  C10. A string that starts with \<open>n:\<close> is refused when cursors are not allowed or no
  root is given: the call returns false and neither the root nor \<open>since\<close> is changed.
\<close>

theorem cursor_rejected:
  assumes "\<not> allow_cursor \<or> root = None"
  shows "w_parse_clockspec e root (Some (JString (CHR ''n'' # CHR '':'' # x))) since allow_cursor
           = (False, since, root)"
  using assms by (auto simp: w_parse_clockspec_def sscanf_clock_def)

theorem cursor_rejected_witness:
  "w_parse_clockspec example_env (Some example_root) (Some (JString ''n:X'')) zero_since False
     = (False, zero_since, Some example_root)
   \<and> w_parse_clockspec example_env None (Some (JString ''n:X'')) zero_since True = (False, zero_since, None)"
  using cursor_rejected [of False "Some example_root" example_env "''X''" zero_since]
    cursor_rejected [of True None example_env "''X''" zero_since]
  by simp

text \<open>
  C4. The clock string of this process for tick \<open>t\<close> is what \<^verbatim>\<open>clock_id_string\<close>
  renders (it always fits a buffer of 128 bytes). Parsing it against a root succeeds;
  the root's ticks go from \<open>t\<close> to \<open>t + 1\<close> when they were \<open>t\<close>, and stay as they
  are otherwise. The cursor table is not changed.
\<close>

theorem tick_bump_on_equal_clockid:
  "clock_id_string e t 128 = (True, clock_string (sint (getpid e)) (unat t))
   \<and> w_parse_clockspec e (Some r) (Some (JString (clock_string (sint (getpid e)) (unat t))))
         since allow_cursor
       = (True, since\<lparr>since_ticks := t, is_timestamp := False\<rparr>,
          Some (if t = ticks r then r\<lparr>ticks := ticks r + 1\<rparr> else r))"
proof -
  have "\<not> cursor_prefix (clock_string (sint (getpid e)) (unat t))"
    by (simp add: cursor_prefix_def clock_string_def)
  then show ?thesis
    by (simp add: w_parse_clockspec_def sscanf_clock_own resolve_clock_def clock_id_string_fits)
qed

theorem tick_bump_witness:
  "clock_id_string example_env 7 128 = (True, ''c:100:7'')
   \<and> ticks example_root = 7
   \<and> w_parse_clockspec example_env (Some example_root) (Some (JString ''c:100:7'')) zero_since False
       = (True, zero_since\<lparr>since_ticks := 7, is_timestamp := False\<rparr>,
          Some (example_root\<lparr>ticks := 8\<rparr>))
   \<and> w_parse_clockspec example_env (Some example_root) (Some (JString ''c:100:6'')) zero_since False
       = (True, zero_since\<lparr>since_ticks := 6, is_timestamp := False\<rparr>, Some example_root)"
proof -
  have s: "clock_string (sint (getpid example_env)) 7 = ''c:100:7''"
    "clock_string (sint (getpid example_env)) 6 = ''c:100:6''"
    by (simp_all add: example_env_def example_clock_strings)
  show ?thesis
    using tick_bump_on_equal_clockid [of example_env 7 example_root zero_since False]
      tick_bump_on_equal_clockid [of example_env 6 example_root zero_since False]
    by (simp add: s example_root_def)
qed

text \<open>
  C1, as stated, fails in two ways; the process is 100. For a pid other than this
  process's, the field \<open>ticks\<close> of the result is 0, not the ticks of the string: the
  string \<open>c:7:5\<close> gives ticks 0. For this process's pid the result need not report
  \<open>is_fresh_instance\<close> false: that branch does not write the field, so with the string
  \<open>c:100:5\<close> a structure that held true on entry holds true on return.
\<close>

theorem clock_roundtrip_counterexample:
  "clock_string 7 5 = ''c:7:5''
   \<and> sint (getpid example_env) = 100
   \<and> w_parse_clockspec example_env None (Some (JString ''c:7:5'')) zero_since False
       = (True, zero_since\<lparr>is_fresh_instance := True\<rparr>, None)
   \<and> since_ticks (zero_since\<lparr>is_fresh_instance := True\<rparr>) \<noteq> 5
   \<and> clock_string 100 5 = ''c:100:5''
   \<and> w_parse_clockspec example_env None (Some (JString ''c:100:5''))
         (zero_since\<lparr>is_fresh_instance := True\<rparr>) False
       = (True, zero_since\<lparr>is_fresh_instance := True, since_ticks := 5\<rparr>, None)
   \<and> is_fresh_instance (zero_since\<lparr>is_fresh_instance := True, since_ticks := 5\<rparr>)"
  by (simp add: w_parse_clockspec_def cursor_prefix_def resolve_clock_def example_env_def
      zero_since_def example_clock_strings scan_eval)

text \<open>
  C1, amended. For \<open>0 \<le> pid < 2^31\<close> and \<open>t < 2^32\<close>, parsing \<open>c:pid:t\<close> succeeds
  with \<open>is_timestamp\<close> false. For a pid other than this process's the result is a fresh
  instance with ticks 0. For this process's pid the ticks of the result are \<open>t\<close>.
\<close>

theorem clock_roundtrip:
  assumes "0 \<le> pid" "pid < 2 ^ 31" "t < 2 ^ 32"
    and "w_parse_clockspec e root (Some (JString (clock_string pid t))) since allow_cursor = (ok, since', root')"
  shows "ok \<and> \<not> is_timestamp since'
       \<and> (pid \<noteq> sint (getpid e) \<longrightarrow> is_fresh_instance since' \<and> since_ticks since' = 0)
       \<and> (pid = sint (getpid e) \<longrightarrow> since_ticks since' = of_nat t)"
proof -
  have np: "\<not> cursor_prefix (clock_string pid t)"
    by (simp add: cursor_prefix_def clock_string_def)
  have d: "scan_d (pid < 0) (nat \<bar>pid\<bar>) = word_of_int pid"
    using assms(1,2) by (intro scan_d_in_range) simp_all
  have u: "scan_u False t = of_nat t"
    using assms(3) by (intro scan_u_in_range) simp
  have sc: "sscanf_clock (clock_string pid t) = Some (word_of_int pid, of_nat t)"
    by (simp add: sscanf_clock_string d u)
  have eq: "(word_of_int pid = getpid e) = (pid = sint (getpid e))"
  proof
    assume "word_of_int pid = getpid e"
    then have "sint (getpid e) = sint (word_of_int pid :: 32 word)" by simp
    also have "\<dots> = pid" using assms(1,2) by (simp add: sint_sbintrunc' signed_take_bit_int_eq_self)
    finally show "pid = sint (getpid e)" by simp
  next
    assume "pid = sint (getpid e)"
    then show "word_of_int pid = getpid e" by simp
  qed
  have res: "resolve_clock e root (word_of_int pid) (of_nat t) since = (ok, since', root')"
    using assms(4) np by (simp add: w_parse_clockspec_def sc)
  show ?thesis
    using res by (auto simp: resolve_clock_def eq Let_def split: if_splits option.splits)
qed

theorem clock_roundtrip_witness:
  "(0::int) \<le> 100 \<and> (100::int) < 2 ^ 31 \<and> (7::nat) < 2 ^ 32
   \<and> w_parse_clockspec example_env (Some example_root) (Some (JString (clock_string 100 7)))
         zero_since True
       = (True, zero_since\<lparr>since_ticks := 7\<rparr>, Some (example_root\<lparr>ticks := 8\<rparr>))
   \<and> (100::int) = sint (getpid example_env)
   \<and> since_ticks (zero_since\<lparr>since_ticks := 7\<rparr>) = of_nat 7"
proof -
  have r: "w_parse_clockspec example_env (Some example_root) (Some (JString (clock_string 100 7)))
             zero_since True
       = (True, zero_since\<lparr>since_ticks := 7\<rparr>, Some (example_root\<lparr>ticks := 8\<rparr>))"
    by (simp add: w_parse_clockspec_def cursor_prefix_def resolve_clock_def example_env_def
        zero_since_def example_root_def example_clock_strings scan_eval)
  show ?thesis
    using clock_roundtrip [OF _ _ _ r] r by (simp add: zero_since_def example_env_def)
qed

subsection \<open>Cursors\<close>

lemma cursor_call:
  "w_parse_clockspec e (Some r) (Some (JString (CHR ''n'' # CHR '':'' # x))) since True
     = resolve_cursor r (CHR ''n'' # CHR '':'' # x) since"
  by (simp add: w_parse_clockspec_def cursor_prefix_def)

lemma unat_succ_le: "unat (t + 1 :: 32 word) \<le> unat t + 1"
proof -
  have "unat (t + 1) = (unat t + 1) mod 2 ^ 32"
    by (simp add: unat_word_ariths)
  then show ?thesis by (metis mod_less_eq_dividend)
qed

lemma unat_succ_eq: "unat t + 1 < 2 ^ 32 \<Longrightarrow> unat (t + 1 :: 32 word) = unat t + 1"
  by (simp add: unat_word_ariths)

lemma cursor_calls_later:
  assumes "cursors r (CHR ''n'' # CHR '':'' # x) = Some (ticks r)"
    and "unat (ticks r) + length ss \<le> 2 ^ 32"
  shows "let res = parse_clockspec_calls e (Some (JString (CHR ''n'' # CHR '':'' # x))) True (Some r) ss
         in list_all fst res \<and> length res = length ss
            \<and> sorted_wrt (<) (map (since_ticks \<circ> snd) res)
            \<and> (\<forall>q \<in> set res. ticks r \<le> since_ticks (snd q))"
  using assms
proof (induction ss arbitrary: r)
  case Nil
  then show ?case by simp
next
  case (Cons s ss)
  let ?k = "CHR ''n'' # CHR '':'' # x"
  let ?r' = "r\<lparr>ticks := ticks r + 1, cursors := (cursors r)(?k \<mapsto> ticks r + 1)\<rparr>"
  have step: "w_parse_clockspec e (Some r) (Some (JString ?k)) s True
      = (True, s\<lparr>is_timestamp := False, is_fresh_instance := False, since_ticks := ticks r\<rparr>, Some ?r')"
    using Cons.prems(1) by (simp add: cursor_call resolve_cursor_def Let_def)
  have c': "cursors ?r' ?k = Some (ticks ?r')" by simp
  have b': "unat (ticks ?r') + length ss \<le> 2 ^ 32"
    using Cons.prems(2) unat_succ_le [of "ticks r"] by simp
  note ih = Cons.IH [OF c' b', unfolded Let_def]
  have gt: "ticks r < ticks r + 1" if "ss \<noteq> []"
  proof -
    have "unat (ticks r) + 1 < 2 ^ 32" using that Cons.prems(2) by (cases ss) simp_all
    then have "unat (ticks r + 1) = unat (ticks r) + 1"
      by (rule unat_succ_eq)
    then show ?thesis by (simp add: word_less_nat_alt)
  qed
  have above: "ticks r < since_ticks (snd q)"
    if "q \<in> set (parse_clockspec_calls e (Some (JString ?k)) True (Some ?r') ss)" for q
  proof -
    have "ss \<noteq> []" using that by auto
    moreover have "ticks r + 1 \<le> since_ticks (snd q)" using ih that by simp
    ultimately show ?thesis using gt by auto
  qed
  show ?case
    unfolding Let_def using ih above
    by (auto simp: step intro: less_imp_le)
qed

text \<open>
  C3, as stated, fails when the 32-bit counter wraps: on a root at tick \<open>2^32 - 1\<close> the
  first call returns ticks 0 and stores 0 for the cursor, so the second call returns 0
  again.
\<close>

theorem cursor_monotonicity_counterexample:
  "map (since_ticks \<circ> snd)
     (parse_clockspec_calls example_env (Some (JString ''n:X'')) True
        (Some \<lparr>ticks = 0xFFFFFFFF, cursors = Map.empty\<rparr>) [zero_since, zero_since]) = [0, 0]
   \<and> \<not> sorted_wrt (<) [0, 0 :: 32 word]"
  by (simp add: w_parse_clockspec_def cursor_prefix_def resolve_cursor_def zero_since_def Let_def)

text \<open>
  C3, amended. For a cursor name that the root has not recorded yet, and as long as the
  root's tick counter does not wrap around \<open>2^32\<close> during the calls, every call
  succeeds, the first one reports a fresh instance, and the ticks returned are strictly
  increasing.
\<close>

theorem cursor_monotonicity:
  assumes "cursors r (CHR ''n'' # CHR '':'' # x) = None"
    and "unat (ticks r) + length ss < 2 ^ 32"
    and "res = parse_clockspec_calls e (Some (JString (CHR ''n'' # CHR '':'' # x))) True (Some r) ss"
  shows "length res = length ss \<and> list_all fst res
       \<and> (ss \<noteq> [] \<longrightarrow> is_fresh_instance (snd (hd res)))
       \<and> sorted_wrt (<) (map (since_ticks \<circ> snd) res)"
proof (cases ss)
  case Nil
  then show ?thesis using assms(3) by simp
next
  case (Cons s rest)
  let ?k = "CHR ''n'' # CHR '':'' # x"
  let ?r' = "r\<lparr>ticks := ticks r + 1, cursors := (cursors r)(?k \<mapsto> ticks r + 1)\<rparr>"
  have step: "w_parse_clockspec e (Some r) (Some (JString ?k)) s True
      = (True, s\<lparr>is_timestamp := False, is_fresh_instance := True, since_ticks := 0\<rparr>, Some ?r')"
    using assms(1) by (simp add: cursor_call resolve_cursor_def Let_def)
  have c': "cursors ?r' ?k = Some (ticks ?r')" by simp
  have b': "unat (ticks ?r') + length rest \<le> 2 ^ 32"
    using assms(2) Cons unat_succ_le [of "ticks r"] by simp
  note later = cursor_calls_later [OF c' b', of e, unfolded Let_def]
  have "unat (ticks r) + 1 < 2 ^ 32" using assms(2) Cons by simp
  then have "unat (ticks r + 1) = unat (ticks r) + 1"
    by (rule unat_succ_eq)
  then have pos: "0 < ticks r + 1" by (simp add: word_less_nat_alt)
  have "0 < since_ticks (snd q)"
    if "q \<in> set (parse_clockspec_calls e (Some (JString ?k)) True (Some ?r') rest)" for q
  proof -
    have "ticks r + 1 \<le> since_ticks (snd q)" using later that by simp
    then show ?thesis using pos by auto
  qed
  then show ?thesis
    using later by (auto simp: assms(3) Cons step)
qed

theorem cursor_monotonicity_witness:
  "cursors example_root ''n:X'' = None
   \<and> unat (ticks example_root) + length [zero_since, zero_since, zero_since] < 2 ^ 32
   \<and> map (since_ticks \<circ> snd)
       (parse_clockspec_calls example_env (Some (JString ''n:X'')) True
          (Some example_root) [zero_since, zero_since, zero_since]) = [0, 8, 9]
   \<and> sorted_wrt (<) (map (since_ticks \<circ> snd)
       (parse_clockspec_calls example_env (Some (JString ''n:X'')) True
          (Some example_root) [zero_since, zero_since, zero_since]))"
proof -
  have a: "cursors example_root ''n:X'' = None" by (simp add: example_root_def)
  have b: "unat (ticks example_root) + length [zero_since, zero_since, zero_since] < 2 ^ 32"
    by (simp add: example_root_def)
  have c: "map (since_ticks \<circ> snd)
       (parse_clockspec_calls example_env (Some (JString ''n:X'')) True
          (Some example_root) [zero_since, zero_since, zero_since]) = [0, 8, 9]"
    by (simp add: w_parse_clockspec_def cursor_prefix_def resolve_cursor_def zero_since_def
        example_root_def Let_def)
  show ?thesis
    using cursor_monotonicity [OF a b refl, of example_env] a b c by simp
qed

subsection \<open>Linked queues\<close>

lemma chain_update: "a \<notin> set as \<Longrightarrow> chain (nx(a := v)) p as = chain nx p as"
  by (induction as arbitrary: p) auto

lemma chain_unique: "chain nx p as \<Longrightarrow> chain nx p bs \<Longrightarrow> as = bs"
proof (induction as arbitrary: p bs)
  case Nil
  then show ?case by (cases bs) auto
next
  case (Cons a as)
  then show ?case by (cases bs) auto
qed

lemma chain_suffix: "chain nx p (xs @ ys) \<Longrightarrow> \<exists>q. chain nx q ys"
  by (induction xs arbitrary: p) auto

lemma chain_from: "chain nx p (xs @ a # ys) \<Longrightarrow> chain nx (nx a) ys"
  by (induction xs arbitrary: p) auto

lemma chain_not_later:
  assumes "chain nx (nx a) as"
  shows "a \<notin> set as"
proof
  assume "a \<in> set as"
  then obtain xs ys where as: "as = xs @ a # ys" by (auto simp: in_set_conv_decomp)
  then have "chain nx (nx a) ys" using assms chain_from by blast
  then have "as = ys" using assms chain_unique by blast
  then show False using as by simp
qed

lemma chain_distinct: "chain nx p as \<Longrightarrow> distinct as"
  by (induction as arbitrary: p) (auto dest: chain_not_later)

lemma chain_append_new:
  assumes "chain nx p as" "as \<noteq> []" "q \<notin> set as"
  shows "chain (nx(q := None, last as := Some q)) p (as @ [q])"
  using assms
proof (induction as arbitrary: p)
  case Nil
  then show ?case by simp
next
  case (Cons a as)
  show ?case
  proof (cases "as = []")
    case True
    then show ?thesis using Cons.prems by auto
  next
    case False
    have d: "distinct (a # as)" using Cons.prems(1) by (rule chain_distinct)
    then have "a \<noteq> last as" using False by auto
    then have same: "(nx(q := None, last as := Some q)) a = nx a"
      using Cons.prems(3) by simp
    have "chain nx (nx a) as" "q \<notin> set as"
      using Cons.prems by simp_all
    then have "chain (nx(q := None, last as := Some q)) (nx a) (as @ [q])"
      using False by (intro Cons.IH)
    then have "chain (nx(q := None, last (a # as) := Some q)) p ((a # as) @ [q])"
      using Cons.prems(1) False same by (simp del: fun_upd_apply)
    then show ?thesis .
  qed
qed

lemmas enqueue_defs = enqueue_response_def calloc_resp_def update_resp_def update_client_def Let_def

lemma enqueue_ok: "fst (enqueue_response (Some p) c js pf s) = True"
  by (simp add: enqueue_defs split: option.splits)

lemma enqueue_frame:
  "clients (snd (enqueue_response r c js pf s)) = clients s"
  "decrefs (snd (enqueue_response r c js pf s)) = decrefs s"
  "resp_live (snd (enqueue_response (Some p) c js pf s)) = insert p (resp_live s)"
  "c' \<noteq> c \<Longrightarrow> client_mem (snd (enqueue_response r c js pf s)) c' = client_mem s c'"
  by (simp_all add: enqueue_defs split: option.splits)

lemma enqueue_client:
  "client_mem (snd (enqueue_response (Some p) c js pf s)) c =
     (client_mem s c)\<lparr>head := (case tail (client_mem s c) of None \<Rightarrow> Some p | Some t \<Rightarrow> head (client_mem s c)),
                      tail := Some p,
                      ping := ping (client_mem s c) + (if pf then 1 else 0)\<rparr>"
  by (simp add: enqueue_defs split: option.splits)

lemma enqueue_next:
  "next_of (snd (enqueue_response (Some p) c js pf s)) =
     (case tail (client_mem s c) of
        None \<Rightarrow> (next_of s)(p := None)
      | Some t \<Rightarrow> (next_of s)(p := None, t := Some p))"
  by (auto simp: enqueue_defs next_of_def fun_eq_iff split: option.splits)

lemma enqueue_json:
  "json (resp_mem (snd (enqueue_response (Some p) c js pf s)) a) = (if a = p then js else json (resp_mem s a))"
  by (simp add: enqueue_defs split: option.splits)

lemma queue_nodes_enqueue:
  assumes q: "queue_nodes s c as" and p: "p \<notin> set as"
  shows "queue_nodes (snd (enqueue_response (Some p) c js pf s)) c (as @ [p])"
proof (cases "as = []")
  case True
  then have "head (client_mem s c) = None" "tail (client_mem s c) = None"
    using q by (simp_all add: queue_nodes_def)
  then show ?thesis
    using True by (simp add: queue_nodes_def enqueue_client enqueue_next)
next
  case False
  then have t: "tail (client_mem s c) = Some (last as)"
    and ch: "chain (next_of s) (head (client_mem s c)) as"
    using q by (simp_all add: queue_nodes_def)
  have "chain ((next_of s)(p := None, last as := Some p)) (head (client_mem s c)) (as @ [p])"
    using ch False p by (rule chain_append_new)
  then show ?thesis
    using t by (simp add: queue_nodes_def enqueue_client enqueue_next)
qed

lemma queue_nodes_enqueue_other:
  assumes q: "queue_nodes s c' bs" and ne: "c' \<noteq> c"
    and p: "p \<notin> set bs" and t: "\<forall>t. tail (client_mem s c) = Some t \<longrightarrow> t \<notin> set bs"
  shows "queue_nodes (snd (enqueue_response (Some p) c js pf s)) c' bs"
proof -
  have "chain (next_of (snd (enqueue_response (Some p) c js pf s))) (head (client_mem s c')) bs"
    using q p t by (auto simp: enqueue_next queue_nodes_def chain_update split: option.splits)
  then show ?thesis
    using q ne by (simp add: queue_nodes_def enqueue_frame)
qed

lemma queue_nodes_tail_in: "queue_nodes s c as \<Longrightarrow> tail (client_mem s c) = Some t \<Longrightarrow> t \<in> set as"
  by (auto simp: queue_nodes_def split: if_splits)

lemma wf_queues_nodes: "wf_queues s C Q \<Longrightarrow> c \<in> C \<Longrightarrow> queue_nodes s c (Q c)"
  unfolding wf_queues_def by blast

lemma wf_queues_live: "wf_queues s C Q \<Longrightarrow> c \<in> C \<Longrightarrow> a \<in> set (Q c) \<Longrightarrow> a \<in> resp_live s"
  unfolding wf_queues_def by blast

lemma wf_queues_disjoint:
  "wf_queues s C Q \<Longrightarrow> c \<in> C \<Longrightarrow> d \<in> C \<Longrightarrow> c \<noteq> d \<Longrightarrow> a \<in> set (Q c) \<Longrightarrow> a \<notin> set (Q d)"
  unfolding wf_queues_def by blast

lemma wf_queues_enqueue:
  assumes wf: "wf_queues s C Q" and c: "c \<in> C" and p: "p \<notin> resp_live s"
  shows "wf_queues (snd (enqueue_response (Some p) c js pf s)) C (Q(c := Q c @ [p]))"
proof -
  let ?s' = "snd (enqueue_response (Some p) c js pf s)"
  have fresh: "p \<notin> set (Q d)" if "d \<in> C" for d
    using wf_queues_live [OF wf that] p by blast
  have own: "queue_nodes ?s' c (Q c @ [p])"
    using wf_queues_nodes [OF wf c] fresh [OF c] by (rule queue_nodes_enqueue)
  have other: "queue_nodes ?s' d (Q d)" if d: "d \<in> C" "d \<noteq> c" for d
  proof -
    have "queue_nodes s d (Q d)" using wf d(1) by (rule wf_queues_nodes)
    moreover have "\<forall>t. tail (client_mem s c) = Some t \<longrightarrow> t \<notin> set (Q d)"
    proof (intro allI impI)
      fix t assume "tail (client_mem s c) = Some t"
      then have "t \<in> set (Q c)"
        using wf_queues_nodes [OF wf c] queue_nodes_tail_in by blast
      then show "t \<notin> set (Q d)" using wf c d wf_queues_disjoint by blast
    qed
    ultimately show ?thesis using d fresh by (intro queue_nodes_enqueue_other) auto
  qed
  have live: "set ((Q(c := Q c @ [p])) d) \<subseteq> resp_live ?s'" if "d \<in> C" for d
    using wf_queues_live [OF wf that] by (auto simp: enqueue_frame)
  have disj: "set ((Q(c := Q c @ [p])) d) \<inter> set ((Q(c := Q c @ [p])) d') = {}"
    if "d \<in> C" "d' \<in> C" "d \<noteq> d'" for d d'
    using wf_queues_disjoint [OF wf that] wf_queues_disjoint [OF wf that(2,1)] that fresh
    by (auto simp: disjoint_iff)
  have nodes: "queue_nodes ?s' d ((Q(c := Q c @ [p])) d)" if "d \<in> C" for d
    using own other [OF that] by (cases "d = c") simp_all
  show ?thesis
    unfolding wf_queues_def using nodes live disj by blast
qed

lemmas dequeue_defs = send_one_response_def dequeue_head_def update_client_def free_resp_def
  json_decref_def Let_def

lemma dequeue_empty: "head (client_mem s c) = None \<Longrightarrow> send_one_response c s = s"
  by (simp add: dequeue_defs)

lemma dequeue_frame:
  "clients (send_one_response c s) = clients s"
  "resp_mem (send_one_response c s) = resp_mem s"
  "c' \<noteq> c \<Longrightarrow> client_mem (send_one_response c s) c' = client_mem s c'"
  by (simp_all add: dequeue_defs split: option.splits)

lemma dequeue_next: "next_of (send_one_response c s) = next_of s"
  by (simp add: next_of_def fun_eq_iff dequeue_frame)

lemma dequeue_client:
  "head (client_mem s c) = Some a \<Longrightarrow>
   client_mem (send_one_response c s) c =
     (client_mem s c)\<lparr>head := next_of s a,
                      tail := (if tail (client_mem s c) = Some a then None else tail (client_mem s c)),
                      sent := sent (client_mem s c) @ [(pdu_type (client_mem s c), json (resp_mem s a))]\<rparr>"
  by (simp add: dequeue_defs next_of_def split: option.splits)

lemma dequeue_live:
  "head (client_mem s c) = Some a \<Longrightarrow> resp_live (send_one_response c s) = resp_live s - {a}"
  by (simp add: dequeue_defs split: option.splits)

lemma queue_nodes_dequeue:
  assumes "queue_nodes s c (a # as)"
  shows "queue_nodes (send_one_response c s) c as"
proof -
  have h: "head (client_mem s c) = Some a" and ch: "chain (next_of s) (next_of s a) as"
    and t: "tail (client_mem s c) = Some (last (a # as))"
    using assms by (simp_all add: queue_nodes_def)
  have "distinct (a # as)"
    using assms chain_distinct [of "next_of s" "head (client_mem s c)" "a # as"]
    by (simp add: queue_nodes_def)
  then have "as \<noteq> [] \<Longrightarrow> last as \<noteq> a" by auto
  then show ?thesis
    using ch t by (auto simp: queue_nodes_def dequeue_client [OF h] dequeue_next)
qed

lemma queue_nodes_dequeue_other:
  assumes "queue_nodes s d bs" "d \<noteq> c"
  shows "queue_nodes (send_one_response c s) d bs"
  using assms by (simp add: queue_nodes_def dequeue_frame dequeue_next)

lemma wf_queues_dequeue:
  assumes wf: "wf_queues s C Q" and c: "c \<in> C"
  shows "wf_queues (send_one_response c s) C (Q(c := tl (Q c)))"
proof (cases "Q c")
  case Nil
  then have "head (client_mem s c) = None"
    using wf_queues_nodes [OF wf c] by (simp add: queue_nodes_def)
  moreover have "Q(c := tl (Q c)) = Q" using Nil by (simp add: fun_eq_iff)
  ultimately show ?thesis using wf by (simp add: dequeue_empty)
next
  case (Cons a as)
  let ?s' = "send_one_response c s"
  let ?Q' = "Q(c := tl (Q c))"
  have qa: "queue_nodes s c (a # as)" using wf_queues_nodes [OF wf c] Cons by simp
  then have h: "head (client_mem s c) = Some a" by (simp add: queue_nodes_def)
  have "distinct (a # as)"
    using qa chain_distinct [of "next_of s" "head (client_mem s c)" "a # as"]
    by (simp add: queue_nodes_def)
  then have a_as: "a \<notin> set as" by simp
  have nodes: "queue_nodes ?s' d (?Q' d)" if d: "d \<in> C" for d
  proof (cases "d = c")
    case True
    then show ?thesis using queue_nodes_dequeue [OF qa] Cons by simp
  next
    case False
    then show ?thesis
      using queue_nodes_dequeue_other [OF wf_queues_nodes [OF wf d] False] by simp
  qed
  have sub: "set (?Q' d) \<subseteq> set (Q d)" for d
    by (cases "Q c") auto
  have gone: "a \<notin> set (?Q' d)" if d: "d \<in> C" for d
  proof (cases "d = c")
    case True
    then show ?thesis using Cons a_as by simp
  next
    case False
    have "a \<in> set (Q c)" using Cons by simp
    then have "a \<notin> set (Q d)"
      using wf_queues_disjoint [OF wf c d] False by blast
    then show ?thesis using False by simp
  qed
  have live: "set (?Q' d) \<subseteq> resp_live ?s'" if d: "d \<in> C" for d
  proof
    fix x assume x: "x \<in> set (?Q' d)"
    then have "x \<in> set (Q d)" using sub by blast
    then have "x \<in> resp_live s" using wf_queues_live [OF wf d] by blast
    moreover have "x \<noteq> a" using gone [OF d] x by blast
    ultimately show "x \<in> resp_live ?s'" by (simp add: dequeue_live [OF h])
  qed
  have disj: "set (?Q' d) \<inter> set (?Q' d') = {}" if d: "d \<in> C" "d' \<in> C" "d \<noteq> d'" for d d'
  proof -
    have "set (Q d) \<inter> set (Q d') = {}"
      using wf d unfolding wf_queues_def by blast
    then show ?thesis using sub [of d] sub [of d'] by blast
  qed
  show ?thesis
    unfolding wf_queues_def
  proof (intro conjI ballI impI)
    fix d assume "d \<in> C"
    then show "queue_nodes ?s' d (?Q' d)" by (rule nodes)
  next
    fix d assume "d \<in> C"
    then show "set (?Q' d) \<subseteq> resp_live ?s'" by (rule live)
  next
    fix d d' assume "d \<in> C" "d' \<in> C" "d \<noteq> d'"
    then show "set (?Q' d) \<inter> set (?Q' d') = {}" by (rule disj)
  qed
qed

lemma chain_reaches: "chain nx (Some a) as \<Longrightarrow> b \<in> set as \<Longrightarrow> reaches nx a b"
proof (induction as arbitrary: a)
  case Nil
  then show ?case by simp
next
  case (Cons x xs)
  then have xa: "x = a" and rest: "chain nx (nx a) xs" by simp_all
  show ?case
  proof (cases "b = a")
    case True
    then show ?thesis by (simp add: reaches.here)
  next
    case False
    then have b: "b \<in> set xs" using Cons.prems(2) xa by simp
    then obtain y ys where xs: "xs = y # ys" by (cases xs) auto
    then have "nx a = Some y" using rest by simp
    moreover have "reaches nx y b" using Cons.IH [of y] rest b xs by simp
    ultimately show ?thesis by (rule reaches.follow)
  qed
qed

lemma queue_nodes_invariant: "queue_nodes s c as \<Longrightarrow> queue_invariant s c"
proof (cases as)
  case Nil
  assume "queue_nodes s c as"
  then show ?thesis using Nil by (simp add: queue_nodes_def queue_invariant_def)
next
  case (Cons a bs)
  assume q: "queue_nodes s c as"
  then have "head (client_mem s c) = Some a" "tail (client_mem s c) = Some (last as)"
    "chain (next_of s) (Some a) as"
    using Cons by (auto simp: queue_nodes_def)
  moreover have "last as \<in> set as" using Cons by simp
  ultimately show ?thesis
    using chain_reaches [of "next_of s" a as "last as"] by (simp add: queue_invariant_def)
qed

lemma runs_wf:
  assumes "runs s0 s" and "\<forall>c. head (client_mem s0 c) = None \<and> tail (client_mem s0 c) = None"
  shows "\<exists>Q. wf_queues s UNIV Q"
  using assms
proof (induction rule: runs.induct)
  case start
  then have "wf_queues s0 UNIV (\<lambda>c. [])"
    by (simp add: wf_queues_def queue_nodes_def)
  then show ?case by blast
next
  case (enqueue s p c js pf)
  then obtain Q where "wf_queues s UNIV Q" by blast
  then have "wf_queues (snd (enqueue_response (Some p) c js pf s)) UNIV (Q(c := Q c @ [p]))"
    using enqueue.hyps(2) by (intro wf_queues_enqueue) simp_all
  then show ?case by blast
next
  case (enqueue_failed s c js pf)
  then show ?case by (simp add: enqueue_response_def)
next
  case (dequeue s c)
  then obtain Q where "wf_queues s UNIV Q" by blast
  then have "wf_queues (send_one_response c s) UNIV (Q(c := tl (Q c)))"
    by (intro wf_queues_dequeue) simp_all
  then show ?case by blast
qed

lemma send_error_response_document:
  "send_error_response e r c text s = send_and_dispose_response r c (Some (error_document e text)) s"
  by (simp add: send_error_response_def make_response_def error_document_def)

lemma log_document_eq: "set_prop (make_response e) ''log'' (JString buf) = log_document e buf"
  by (simp add: make_response_def log_document_def)

lemma send_and_dispose_some:
  "send_and_dispose_response (Some p) c js s = snd (enqueue_response (Some p) c js False s)"
  using enqueue_ok [of p c js False s]
  by (cases "enqueue_response (Some p) c js False s") (simp add: send_and_dispose_response_def)

lemma send_and_dispose_none:
  "send_and_dispose_response None c js s = json_decref js s"
  by (simp add: send_and_dispose_response_def enqueue_response_def)

text \<open>
  C7. From a state in which every client structure is zeroed, as \<^verbatim>\<open>calloc\<close> leaves
  it, any sequence of \<^verbatim>\<open>enqueue_response\<close> calls (with a newly allocated node, or
  failing) and of dequeues by the workers leads to a state where, for every client,
  \<open>head\<close> is null exactly when \<open>tail\<close> is, and otherwise \<open>tail\<close> is reached from
  \<open>head\<close> through \<open>next\<close>; and the invariant holds again after one more enqueue or
  dequeue on any client.
\<close>

theorem outbound_queue_invariant:
  assumes "\<forall>c. head (client_mem s0 c) = None \<and> tail (client_mem s0 c) = None"
    and "runs s0 s"
  shows "queue_invariant s c
       \<and> (\<forall>p d js pf. p \<notin> resp_live s \<longrightarrow> queue_invariant (snd (enqueue_response (Some p) d js pf s)) c)
       \<and> (\<forall>d js pf. queue_invariant (snd (enqueue_response None d js pf s)) c)
       \<and> (\<forall>d. queue_invariant (send_one_response d s) c)"
proof -
  have inv: "queue_invariant s' c" if r: "runs s0 s'" for s'
  proof -
    obtain Q where "wf_queues s' UNIV Q" using runs_wf [OF r assms(1)] by blast
    then have "queue_nodes s' c (Q c)" by (rule wf_queues_nodes) simp
    then show ?thesis by (rule queue_nodes_invariant)
  qed
  have "queue_invariant s c"
    using assms(2) by (rule inv)
  moreover have "queue_invariant (snd (enqueue_response (Some p) d js pf s)) c"
    if "p \<notin> resp_live s" for p d js pf
    using runs.enqueue [OF assms(2) that] by (rule inv)
  moreover have "queue_invariant (snd (enqueue_response None d js pf s)) c" for d js pf
    using runs.enqueue_failed [OF assms(2)] by (rule inv)
  moreover have "queue_invariant (send_one_response d s) c" for d
    using runs.dequeue [OF assms(2)] by (rule inv)
  ultimately show ?thesis by blast
qed

theorem outbound_queue_invariant_witness:
  "(\<forall>c. head (client_mem fresh_server c) = None \<and> tail (client_mem fresh_server c) = None)
   \<and> runs fresh_server example_run
   \<and> head (client_mem example_run 0) = Some 2 \<and> tail (client_mem example_run 0) = Some 2
   \<and> queue_invariant example_run 0"
proof -
  have init: "\<forall>c. head (client_mem fresh_server c) = None \<and> tail (client_mem fresh_server c) = None"
    by (simp add: fresh_server_def zero_client_def)
  have "runs fresh_server (snd (enqueue_response (Some 1) 0 (Some JTrue) False fresh_server))"
    by (rule runs.enqueue [OF runs.start]) (simp add: fresh_server_def)
  then have "runs fresh_server (snd (enqueue_response (Some 2) 0 (Some JNull) True
          (snd (enqueue_response (Some 1) 0 (Some JTrue) False fresh_server))))"
    by (rule runs.enqueue) (simp add: enqueue_frame fresh_server_def)
  then have run: "runs fresh_server example_run"
    unfolding example_run_def by (rule runs.dequeue)
  have ht: "head (client_mem example_run 0) = Some 2 \<and> tail (client_mem example_run 0) = Some 2"
    by (simp add: example_run_def fresh_server_def zero_client_def enqueue_defs dequeue_defs)
  show ?thesis
    using outbound_queue_invariant [OF init run, of 0] init run ht by blast
qed

text \<open>
  C8. \<^verbatim>\<open>enqueue_response\<close> fails exactly when \<^verbatim>\<open>calloc\<close> returns null, and then
  the state is unchanged: nothing is queued and the document is neither stored nor
  released. \<^verbatim>\<open>send_and_dispose_response\<close> then releases the document and does
  nothing else; when the enqueue succeeds it releases nothing. In both cases the registry
  of sessions is as before.
\<close>

theorem enqueue_failure_semantics:
  "(fst (enqueue_response r c js pf s) = False \<longleftrightarrow> r = None)
   \<and> enqueue_response None c js pf s = (False, s)
   \<and> send_and_dispose_response None c (Some d) s = s\<lparr>decrefs := decrefs s @ [d]\<rparr>
   \<and> decrefs (send_and_dispose_response (Some p) c js s) = decrefs s
   \<and> clients (send_and_dispose_response r c js s) = clients s"
proof -
  have 1: "fst (enqueue_response r c js pf s) = False \<longleftrightarrow> r = None"
    using enqueue_ok [of _ c js pf s] by (cases r) (simp_all add: enqueue_response_def)
  have 2: "enqueue_response None c js pf s = (False, s)"
    by (simp add: enqueue_response_def)
  have 3: "send_and_dispose_response None c (Some d) s = s\<lparr>decrefs := decrefs s @ [d]\<rparr>"
    by (simp add: send_and_dispose_none json_decref_def)
  have 4: "decrefs (send_and_dispose_response (Some p) c js s) = decrefs s"
    by (simp add: send_and_dispose_some enqueue_frame)
  have 5: "clients (send_and_dispose_response r c js s) = clients s"
    by (cases r) (simp_all add: send_and_dispose_some send_and_dispose_none enqueue_frame
        json_decref_def split: option.splits)
  show ?thesis using 1 2 3 4 5 by blast
qed

subsection \<open>The response envelope\<close>

lemma map_of_object_set: "map_of (object_set k v kvs) k' = (if k' = k then Some v else map_of kvs k')"
  by (induction kvs) auto

lemma json_object_get_set_prop:
  "json_object_get (set_prop (JObject kvs) k v) k' = (if k' = k then Some v else map_of kvs k')"
  by (simp add: map_of_object_set)

lemma set_props_object:
  "\<exists>kvs'. foldl (\<lambda>j (k, v). set_prop j k v) (JObject kvs) ms = JObject kvs'
          \<and> (k' \<notin> fst ` set ms \<longrightarrow> map_of kvs' k' = map_of kvs k')"
proof (induction ms arbitrary: kvs)
  case Nil
  then show ?case by simp
next
  case (Cons m ms)
  obtain k v where m: "m = (k, v)" by (cases m)
  obtain kvs' where 1: "foldl (\<lambda>j (k, v). set_prop j k v) (JObject (object_set k v kvs)) ms = JObject kvs'"
    and 2: "k' \<notin> fst ` set ms \<longrightarrow> map_of kvs' k' = map_of (object_set k v kvs) k'"
    using Cons.IH [of "object_set k v kvs"] by blast
  show ?case
    using 1 2 m by (auto simp: map_of_object_set)
qed

lemma version_kept:
  assumes "''version'' \<notin> fst ` set ms"
  shows "json_object_get (set_props (make_response e) ms) ''version''
           = Some (JString (PACKAGE_VERSION e))"
proof -
  obtain kvs' where "foldl (\<lambda>j (k, v). set_prop j k v) (JObject [(''version'', JString (PACKAGE_VERSION e))]) ms = JObject kvs'"
    and "map_of kvs' ''version'' = map_of [(''version'', JString (PACKAGE_VERSION e))] ''version''"
    using set_props_object [of "[(''version'', JString (PACKAGE_VERSION e))]" ms "''version''"] assms
    by blast
  then show ?thesis by (simp add: make_response_def set_props_def)
qed

text \<open>
  C6. The document that \<^verbatim>\<open>make_response\<close> builds has the member \<open>version\<close> with the
  package version, and keeps it whatever other members are set afterwards. So has the
  document of every error response, whether \<^verbatim>\<open>send_error_response\<close> queues it or,
  failing to, releases it, and the document of a log message.
\<close>

theorem response_envelope:
  "json_object_get (make_response e) ''version'' = Some (JString (PACKAGE_VERSION e))
   \<and> (\<forall>ms. ''version'' \<notin> fst ` set ms \<longrightarrow>
          json_object_get (set_props (make_response e) ms) ''version'' = Some (JString (PACKAGE_VERSION e)))
   \<and> json_object_get (error_document e text) ''version'' = Some (JString (PACKAGE_VERSION e))
   \<and> json (resp_mem (send_error_response e (Some p) c text s) p) = Some (error_document e text)
   \<and> decrefs (send_error_response e None c text s) = decrefs s @ [error_document e text]
   \<and> json_object_get (set_prop (make_response e) ''log'' (JString buf)) ''version''
       = Some (JString (PACKAGE_VERSION e))"
proof -
  have "json_object_get (make_response e) ''version'' = Some (JString (PACKAGE_VERSION e))"
    by (simp add: make_response_def)
  moreover have "json_object_get (error_document e text) ''version'' = Some (JString (PACKAGE_VERSION e))"
    by (simp add: error_document_def)
  moreover have "json (resp_mem (send_error_response e (Some p) c text s) p) = Some (error_document e text)"
    by (simp add: send_error_response_document send_and_dispose_some enqueue_json)
  moreover have "decrefs (send_error_response e None c text s) = decrefs s @ [error_document e text]"
    by (simp add: send_error_response_document send_and_dispose_none json_decref_def)
  moreover have "json_object_get (set_prop (make_response e) ''log'' (JString buf)) ''version''
       = Some (JString (PACKAGE_VERSION e))"
    by (simp add: log_document_eq log_document_def)
  ultimately show ?thesis using version_kept [of _ e] by blast
qed

theorem response_envelope_witness:
  "''version'' \<notin> fst ` set [(''clock'', JString ''c:100:7''), (''files'', JArray [])]
   \<and> set_props (make_response example_env) [(''clock'', JString ''c:100:7''), (''files'', JArray [])]
       = JObject [(''version'', JString ''2.5''), (''clock'', JString ''c:100:7''), (''files'', JArray [])]
   \<and> json_object_get (set_props (make_response example_env)
                           [(''clock'', JString ''c:100:7''), (''files'', JArray [])]) ''version''
       = Some (JString (PACKAGE_VERSION example_env))"
proof -
  have a: "''version'' \<notin> fst ` set [(''clock'', JString ''c:100:7''), (''files'', JArray [])]"
    by simp
  have b: "set_props (make_response example_env) [(''clock'', JString ''c:100:7''), (''files'', JArray [])]
       = JObject [(''version'', JString ''2.5''), (''clock'', JString ''c:100:7''), (''files'', JArray [])]"
    by (simp add: set_props_def make_response_def example_env_def)
  show ?thesis
    using response_envelope [of example_env] a b by blast
qed

subsection \<open>The dispatcher\<close>

lemma send_error_response_sent:
  assumes wf: "wf_queues s C Q" and c: "c \<in> C" and fresh: "\<forall>p. r = Some p \<longrightarrow> p \<notin> resp_live s"
  shows "error_sent e text r c C Q s (send_error_response e r c text s)"
proof (cases r)
  case None
  then show ?thesis
    by (simp add: error_sent_def send_error_response_document send_and_dispose_none json_decref_def)
next
  case (Some p)
  then have "p \<notin> resp_live s" using fresh by simp
  then have "wf_queues (snd (enqueue_response (Some p) c (Some (error_document e text)) False s)) C
               (Q(c := Q c @ [p]))"
    using wf c by (intro wf_queues_enqueue)
  then show ?thesis
    using Some
    by (simp add: error_sent_def send_error_response_document send_and_dispose_some
        enqueue_frame enqueue_json)
qed

lemma not_nonempty_array: "(\<not> (\<exists>x xs. args = Some (JArray (x # xs)))) = (json_array_size args = 0)"
proof (cases args)
  case None
  then show ?thesis by simp
next
  case (Some j)
  show ?thesis
  proof (cases j)
    case (JArray ys)
    then show ?thesis using Some by (cases ys) simp_all
  qed (simp_all add: Some)
qed

lemma send_error_response_clients: "clients (send_error_response e r c text s) = clients s"
  by (cases r)
    (simp_all add: send_error_response_document send_and_dispose_some send_and_dispose_none
      enqueue_frame json_decref_def)

lemma json_decref_clients: "clients (json_decref j s) = clients s"
  by (cases j) (simp_all add: json_decref_def)

lemma dispatch_command_result:
  "fst (dispatch_command e funcs r c args s) = fst (dispatch_command e funcs r c args s')"
  by (simp add: dispatch_command_def split: option.splits)

lemma dispatch_command_failed_clients:
  "\<not> fst (dispatch_command e funcs r c args s) \<Longrightarrow>
     clients (snd (dispatch_command e funcs r c args s)) = clients s"
  by (auto simp: dispatch_command_def send_error_response_clients split: option.splits if_splits)

lemma not_string: "(\<forall>name. x \<noteq> JString name) = (json_string_value (Some x) = None)"
  by (cases x) auto

text \<open>
  C5, as stated, fails in two ways. The text of an error is cut to the buffer of
  \<^verbatim>\<open>send_error_response\<close>: with a buffer of 4096 bytes and a command name of 4096
  letters, the error sent is \<open>unknown command\<close> followed by 4079 of the letters. And
  when the node for the response cannot be allocated, no error response is queued at all.
\<close>

theorem dispatch_command_errors_counterexample:
  "json (resp_mem (snd (dispatch_command example_env Map.empty (Some 1) 0
            (Some (JArray [JString (replicate 4096 CHR ''a'')])) fresh_server)) 1)
     = Some (JObject [(''version'', JString ''2.5''),
                      (''error'', JString (''unknown command '' @ replicate 4079 CHR ''a''))])
   \<and> ''unknown command '' @ replicate 4079 CHR ''a'' \<noteq> ''unknown command '' @ replicate 4096 CHR ''a''
   \<and> dispatch_command example_env Map.empty None 0 (Some (JArray [])) fresh_server
     = (False, fresh_server\<lparr>decrefs :=
          [JObject [(''version'', JString ''2.5''),
                    (''error'', JString ''invalid command (expected an array with some elements!)'')]]\<rparr>)"
  by (simp add: dispatch_command_def send_error_response_document send_and_dispose_some
      send_and_dispose_none enqueue_json json_decref_def error_document_def example_env_def
      fresh_server_def)

text \<open>
  C5, amended. Let the queues be well formed and \<^verbatim>\<open>calloc\<close> return null or a node
  that is not allocated. A request that is not a non-empty array, one whose element 0 is
  not a string, and one that names no registered handler each make
  \<^verbatim>\<open>dispatch_command\<close> return false and send the error of the claim, cut to
  \<open>WATCHMAN_NAME_MAX - 1\<close> characters: it is appended to the client's queue when the
  node was allocated, and released otherwise. In the remaining case the handler is called
  with the client and the request and the result is true. After a false result the
  worker goes on with the session still registered.
\<close>

theorem dispatch_command_errors:
  assumes wf: "wf_queues s C Q" and c: "c \<in> C" and fresh: "\<forall>p. r = Some p \<longrightarrow> p \<notin> resp_live s"
    and res: "dispatch_command e funcs r c args s = (ok, s')"
  shows "(\<not> (\<exists>x xs. args = Some (JArray (x # xs))) \<longrightarrow>
            \<not> ok \<and> error_sent e ''invalid command (expected an array with some elements!)'' r c C Q s s')
       \<and> (\<forall>x xs. args = Some (JArray (x # xs)) \<and> (\<forall>name. x \<noteq> JString name) \<longrightarrow>
            \<not> ok \<and> error_sent e ''invalid command: expected element 0 to be the command name'' r c C Q s s')
       \<and> (\<forall>name xs. args = Some (JArray (JString name # xs)) \<and> funcs name = None \<longrightarrow>
            \<not> ok \<and> error_sent e (''unknown command '' @ name) r c C Q s s')
       \<and> (\<forall>name xs func. args = Some (JArray (JString name # xs)) \<and> funcs name = Some func \<longrightarrow>
            ok \<and> s' = func c args s)
       \<and> (\<forall>pdu request. \<not> ok \<and> args = Some request \<longrightarrow>
            clients (client_thread_request e funcs r c pdu request s) = clients s)"
proof -
  note sent = send_error_response_sent [OF wf c fresh, of e]
  have 1: "\<not> ok \<and> error_sent e ''invalid command (expected an array with some elements!)'' r c C Q s s'"
    if "\<not> (\<exists>x xs. args = Some (JArray (x # xs)))"
  proof -
    have "json_array_size args = 0" using that not_nonempty_array by blast
    then show ?thesis using res sent by (auto simp: dispatch_command_def)
  qed
  have 2: "\<not> ok \<and> error_sent e ''invalid command: expected element 0 to be the command name'' r c C Q s s'"
    if "args = Some (JArray (x # xs))" "\<forall>name. x \<noteq> JString name" for x xs
  proof -
    have "json_string_value (Some x) = None" using that(2) not_string by blast
    then show ?thesis using res sent that(1) by (auto simp: dispatch_command_def)
  qed
  have 3: "\<not> ok \<and> error_sent e (''unknown command '' @ name) r c C Q s s'"
    if "args = Some (JArray (JString name # xs))" "funcs name = None" for name xs
    using res sent that by (auto simp: dispatch_command_def)
  have 4: "ok \<and> s' = func c args s"
    if "args = Some (JArray (JString name # xs))" "funcs name = Some func" for name xs func
    using res that by (auto simp: dispatch_command_def)
  have 5: "clients (client_thread_request e funcs r c pdu request s) = clients s"
    if "\<not> ok" "args = Some request" for pdu request
  proof -
    let ?s1 = "update_client c (\<lambda>c. c\<lparr>pdu_type := pdu\<rparr>) s"
    have "\<not> fst (dispatch_command e funcs r c args ?s1)"
      using dispatch_command_result [of e funcs r c args ?s1 s] res that(1) by simp
    then have "clients (snd (dispatch_command e funcs r c args ?s1)) = clients ?s1"
      by (rule dispatch_command_failed_clients)
    moreover have "clients ?s1 = clients s"
      by (simp add: update_client_def)
    moreover have "client_thread_request e funcs r c pdu request s
        = json_decref (Some request) (snd (dispatch_command e funcs r c args ?s1))"
      unfolding client_thread_request_def Let_def that(2) ..
    ultimately show ?thesis
      by (simp only: json_decref_clients)
  qed
  have c1: "\<not> (\<exists>x xs. args = Some (JArray (x # xs))) \<longrightarrow>
            \<not> ok \<and> error_sent e ''invalid command (expected an array with some elements!)'' r c C Q s s'"
    using 1 by simp
  have c2: "\<forall>x xs. args = Some (JArray (x # xs)) \<and> (\<forall>name. x \<noteq> JString name) \<longrightarrow>
            \<not> ok \<and> error_sent e ''invalid command: expected element 0 to be the command name'' r c C Q s s'"
    using 2 by simp
  have c3: "\<forall>name xs. args = Some (JArray (JString name # xs)) \<and> funcs name = None \<longrightarrow>
            \<not> ok \<and> error_sent e (''unknown command '' @ name) r c C Q s s'"
    using 3 by simp
  have c4: "\<forall>name xs func. args = Some (JArray (JString name # xs)) \<and> funcs name = Some func \<longrightarrow>
            ok \<and> s' = func c args s"
    using 4 by simp
  have c5: "\<forall>pdu request. \<not> ok \<and> args = Some request \<longrightarrow>
            clients (client_thread_request e funcs r c pdu request s) = clients s"
    using 5 by simp
  show ?thesis
    by (intro conjI) (rule c1 c2 c3 c4 c5)+
qed

theorem dispatch_command_errors_witness:
  "\<not> fst (dispatch_command example_env Map.empty (Some 1) 0 (Some (JArray [JString ''nope''])) fresh_server)
   \<and> clients (snd (dispatch_command example_env Map.empty (Some 1) 0
                      (Some (JArray [JString ''nope''])) fresh_server)) = clients fresh_server
   \<and> json (resp_mem (snd (dispatch_command example_env Map.empty (Some 1) 0
                              (Some (JArray [JString ''nope''])) fresh_server)) 1)
       = Some (JObject [(''version'', JString ''2.5''), (''error'', JString ''unknown command nope'')])
   \<and> queue_nodes (snd (dispatch_command example_env Map.empty (Some 1) 0
                          (Some (JArray [JString ''nope''])) fresh_server)) 0 [1]"
proof -
  let ?s' = "snd (dispatch_command example_env Map.empty (Some 1) 0
                    (Some (JArray [JString ''nope''])) fresh_server)"
  have wf: "wf_queues fresh_server {0} (\<lambda>c. [])"
    by (simp add: wf_queues_def queue_nodes_def fresh_server_def zero_client_def)
  have c: "(0::nat) \<in> {0}" by simp
  have fresh: "\<forall>p. Some (1::nat) = Some p \<longrightarrow> p \<notin> resp_live fresh_server"
    by (simp add: fresh_server_def)
  have doc: "error_document example_env ''unknown command nope''
       = JObject [(''version'', JString ''2.5''), (''error'', JString ''unknown command nope'')]"
    by (simp add: error_document_def example_env_def)
  have "\<not> fst (dispatch_command example_env Map.empty (Some 1) 0
                  (Some (JArray [JString ''nope''])) fresh_server)
      \<and> error_sent example_env ''unknown command nope'' (Some 1) 0 {0} (\<lambda>c. []) fresh_server ?s'"
    using dispatch_command_errors [OF wf c fresh surjective_pairing,
        where e = example_env and funcs = Map.empty
          and args = "Some (JArray [JString ''nope''])"]
    by simp
  then show ?thesis
    by (simp add: error_sent_def wf_queues_def doc)
qed

subsection \<open>The log broadcaster\<close>

lemma log_to_client_cases:
  "\<not> log_wanted e level (client_mem s c) \<Longrightarrow> log_to_client e r level buf c s = s"
  "log_wanted e level (client_mem s c) \<Longrightarrow>
     log_to_client e None level buf c s = s\<lparr>decrefs := decrefs s @ [log_document e buf]\<rparr>"
  "log_wanted e level (client_mem s c) \<Longrightarrow>
     log_to_client e (Some p) level buf c s
       = snd (enqueue_response (Some p) c (Some (log_document e buf)) True s)"
proof -
  show "\<not> log_wanted e level (client_mem s c) \<Longrightarrow> log_to_client e r level buf c s = s"
    by (simp add: log_to_client_def)
  show "log_wanted e level (client_mem s c) \<Longrightarrow>
     log_to_client e None level buf c s = s\<lparr>decrefs := decrefs s @ [log_document e buf]\<rparr>"
    by (simp add: log_to_client_def log_document_eq enqueue_response_def json_decref_def)
  show "log_wanted e level (client_mem s c) \<Longrightarrow>
     log_to_client e (Some p) level buf c s
       = snd (enqueue_response (Some p) c (Some (log_document e buf)) True s)"
    using enqueue_ok [of p c "Some (log_document e buf)" True s]
    by (cases "enqueue_response (Some p) c (Some (log_document e buf)) True s")
      (simp add: log_to_client_def log_document_eq)
qed

lemma next_of_decrefs: "next_of (s\<lparr>decrefs := x\<rparr>) = next_of s"
  by (simp add: next_of_def fun_eq_iff)

lemma wf_queues_decrefs: "wf_queues (s\<lparr>decrefs := x\<rparr>) C Q = wf_queues s C Q"
  by (simp add: wf_queues_def queue_nodes_def next_of_decrefs)

lemma log_to_client_other:
  "d \<noteq> c \<Longrightarrow> client_mem (log_to_client e r level buf c s) d = client_mem s d"
  by (cases r; cases "log_wanted e level (client_mem s c)")
    (simp_all add: log_to_client_cases enqueue_frame)

lemma log_to_client_level:
  "log_level (client_mem (log_to_client e r level buf c s) d) = log_level (client_mem s d)"
  by (cases r; cases "log_wanted e level (client_mem s c)"; cases "d = c")
    (simp_all add: log_to_client_cases enqueue_frame enqueue_client)

lemma log_to_client_wanted:
  "log_wanted e level (client_mem (log_to_client e r level buf c s) d) = log_wanted e level (client_mem s d)"
  by (simp add: log_wanted_def log_to_client_level)

lemma log_to_client_live:
  "resp_live (log_to_client e r level buf c s) \<subseteq> resp_live s \<union> set_option r"
  by (cases r; cases "log_wanted e level (client_mem s c)")
    (auto simp: log_to_client_cases enqueue_frame)

lemma log_to_client_wf:
  assumes wf: "wf_queues s C Q" and c: "c \<in> C" and fresh: "\<forall>p. callocs c = Some p \<longrightarrow> p \<notin> resp_live s"
  shows "wf_queues (log_to_client e (callocs c) level buf c s) C (Q(c := Q c @ log_nodes e level callocs s c))"
proof (cases "log_wanted e level (client_mem s c)")
  case False
  then have "Q(c := Q c @ log_nodes e level callocs s c) = Q"
    by (simp add: log_nodes_def fun_eq_iff)
  then show ?thesis using False wf by (simp add: log_to_client_cases)
next
  case True
  show ?thesis
  proof (cases "callocs c")
    case None
    then have "Q(c := Q c @ log_nodes e level callocs s c) = Q"
      by (simp add: log_nodes_def fun_eq_iff)
    then show ?thesis using True None wf by (simp add: log_to_client_cases wf_queues_decrefs)
  next
    case (Some p)
    then have "p \<notin> resp_live s" using fresh by simp
    then have "wf_queues (snd (enqueue_response (Some p) c (Some (log_document e buf)) True s)) C
                 (Q(c := Q c @ [p]))"
      using wf c by (intro wf_queues_enqueue)
    then show ?thesis using True Some by (simp add: log_to_client_cases log_nodes_def)
  qed
qed

lemma log_to_each_wf:
  assumes "distinct (map snd es)" and "wf_queues s C Q" and "snd ` set es \<subseteq> C"
    and "\<forall>c\<in>snd ` set es. \<forall>p. callocs c = Some p \<longrightarrow> p \<notin> resp_live s"
    and "\<forall>c\<in>snd ` set es. \<forall>d\<in>snd ` set es. c \<noteq> d \<longrightarrow> callocs c = None \<or> callocs c \<noteq> callocs d"
  shows "wf_queues (log_to_each e callocs level buf es s) C
           (\<lambda>c. if c \<in> snd ` set es then Q c @ log_nodes e level callocs s c else Q c)"
  using assms
proof (induction es arbitrary: s Q)
  case Nil
  then show ?case by simp
next
  case (Cons x es)
  obtain k c where x: "x = (k, c)" by (cases x)
  let ?s1 = "log_to_client e (callocs c) level buf c s"
  let ?Q1 = "Q(c := Q c @ log_nodes e level callocs s c)"
  have c_C: "c \<in> C" using Cons.prems(3) x by simp
  have c_new: "c \<notin> snd ` set es" using Cons.prems(1) x by (simp add: image_iff) 
  have fresh_c: "\<forall>p. callocs c = Some p \<longrightarrow> p \<notin> resp_live s"
    using Cons.prems(4) x by simp
  have wf1: "wf_queues ?s1 C ?Q1"
    by (rule log_to_client_wf [where callocs = callocs, OF Cons.prems(2) c_C fresh_c])
  have d1: "distinct (map snd es)" using Cons.prems(1) by simp
  have sub1: "snd ` set es \<subseteq> C" using Cons.prems(3) by simp
  have fresh1: "\<forall>d\<in>snd ` set es. \<forall>q. callocs d = Some q \<longrightarrow> q \<notin> resp_live ?s1"
  proof (intro ballI allI impI)
    fix d q assume d: "d \<in> snd ` set es" and q: "callocs d = Some q"
    have dc: "d \<noteq> c" using d c_new by blast
    have mem: "d \<in> snd ` set (x # es)" "c \<in> snd ` set (x # es)"
      using d x by auto
    have "\<forall>d'\<in>snd ` set (x # es). d \<noteq> d' \<longrightarrow> callocs d = None \<or> callocs d \<noteq> callocs d'"
      using Cons.prems(5) mem(1) by (rule bspec)
    then have "d \<noteq> c \<longrightarrow> callocs d = None \<or> callocs d \<noteq> callocs c"
      using mem(2) by (rule bspec)
    then have "callocs d = None \<or> callocs d \<noteq> callocs c"
      using dc by simp
    then have "callocs d \<noteq> callocs c" using q by auto
    then have 1: "q \<notin> set_option (callocs c)" using q by (cases "callocs c") auto
    have "\<forall>p. callocs d = Some p \<longrightarrow> p \<notin> resp_live s"
      using Cons.prems(4) mem(1) by (rule bspec)
    then have 2: "q \<notin> resp_live s" using q by simp
    show "q \<notin> resp_live ?s1"
      using 1 2 log_to_client_live [of e "callocs c" level buf c s] by blast
  qed
  have inj1: "\<forall>c\<in>snd ` set es. \<forall>d\<in>snd ` set es. c \<noteq> d \<longrightarrow> callocs c = None \<or> callocs c \<noteq> callocs d"
  proof (intro ballI impI)
    fix a b assume "a \<in> snd ` set es" "b \<in> snd ` set es" "a \<noteq> b"
    moreover from this have "a \<in> snd ` set (x # es)" "b \<in> snd ` set (x # es)" by auto
    ultimately show "callocs a = None \<or> callocs a \<noteq> callocs b"
      using Cons.prems(5) by (meson bspec)
  qed
  have ih: "wf_queues (log_to_each e callocs level buf es ?s1) C
           (\<lambda>d. if d \<in> snd ` set es then ?Q1 d @ log_nodes e level callocs ?s1 d else ?Q1 d)"
    using d1 wf1 sub1 fresh1 inj1 by (rule Cons.IH)
  have same: "log_nodes e level callocs ?s1 d = log_nodes e level callocs s d" for d
    by (simp add: log_nodes_def log_to_client_wanted)
  have eq: "(\<lambda>d. if d \<in> snd ` set es then ?Q1 d @ log_nodes e level callocs ?s1 d else ?Q1 d)
      = (\<lambda>d. if d \<in> snd ` set (x # es) then Q d @ log_nodes e level callocs s d else Q d)"
  proof
    fix d
    show "(if d \<in> snd ` set es then ?Q1 d @ log_nodes e level callocs ?s1 d else ?Q1 d)
      = (if d \<in> snd ` set (x # es) then Q d @ log_nodes e level callocs s d else Q d)"
      using c_new x by (cases "d = c") (auto simp: same)
  qed
  have "log_to_each e callocs level buf (x # es) s = log_to_each e callocs level buf es ?s1"
    using x by simp
  then show ?case using ih unfolding eq by (simp only:)
qed

lemma log_to_each_other:
  "c \<notin> snd ` set es \<Longrightarrow> client_mem (log_to_each e callocs level buf es s) c = client_mem s c"
proof (induction es arbitrary: s)
  case Nil
  then show ?case by simp
next
  case (Cons x es)
  obtain k d where x: "x = (k, d)" by (cases x)
  then have "d \<noteq> c" using Cons.prems by auto
  then show ?case using Cons x by (simp add: log_to_client_other)
qed

lemma log_to_each_client:
  assumes "distinct (map snd es)" and "c \<in> snd ` set es"
  shows "client_mem (log_to_each e callocs level buf es s) c = client_mem (log_to_client e (callocs c) level buf c s) c"
  using assms
proof (induction es arbitrary: s)
  case Nil
  then show ?case by simp
next
  case (Cons x es)
  obtain k d where x: "x = (k, d)" by (cases x)
  show ?case
  proof (cases "d = c")
    case True
    then have "c \<notin> snd ` set es" using Cons.prems(1) x by (simp add: image_iff)
    then show ?thesis using True x by (simp add: log_to_each_other)
  next
    case False
    then have in_es: "c \<in> snd ` set es" using Cons.prems(2) x by auto
    let ?s1 = "log_to_client e (callocs d) level buf d s"
    have "client_mem (log_to_each e callocs level buf es ?s1) c
            = client_mem (log_to_client e (callocs c) level buf c ?s1) c"
      using Cons.prems(1) in_es by (intro Cons.IH) simp_all
    also have "\<dots> = client_mem (log_to_client e (callocs c) level buf c s) c"
    proof -
      have m: "client_mem ?s1 c = client_mem s c" using False by (simp add: log_to_client_other)
      show ?thesis
        by (cases "callocs c"; cases "log_wanted e level (client_mem s c)")
          (simp_all add: log_to_client_cases m enqueue_client split: option.splits)
    qed
    finally show ?thesis using x by simp
  qed
qed

lemma log_to_client_json:
  "json (resp_mem (log_to_client e r level buf c s) a) =
     (if log_wanted e level (client_mem s c) \<and> r = Some a then Some (log_document e buf)
      else json (resp_mem s a))"
  by (cases r; cases "log_wanted e level (client_mem s c)")
    (auto simp: log_to_client_cases enqueue_json)

lemma log_to_each_json:
  "json (resp_mem (log_to_each e callocs level buf es s) a) =
     (if \<exists>c\<in>snd ` set es. log_wanted e level (client_mem s c) \<and> callocs c = Some a
      then Some (log_document e buf) else json (resp_mem s a))"
proof (induction es arbitrary: s)
  case Nil
  then show ?case by simp
next
  case (Cons x es)
  obtain k d where x: "x = (k, d)" by (cases x)
  show ?case
    using x by (auto simp: Cons.IH log_to_client_json log_to_client_wanted)
qed

lemma log_to_client_decrefs:
  "decrefs (log_to_client e r level buf c s) =
     (if log_wanted e level (client_mem s c) \<and> r = None then decrefs s @ [log_document e buf]
      else decrefs s)"
  by (cases r; cases "log_wanted e level (client_mem s c)")
    (simp_all add: log_to_client_cases enqueue_frame)

lemma log_failed_step:
  "log_failed e level callocs (log_to_client e r level buf c s) es = log_failed e level callocs s es"
  by (simp add: log_failed_def log_to_client_wanted)

lemma log_to_each_decrefs:
  "decrefs (log_to_each e callocs level buf es s) =
     decrefs s @ map (\<lambda>c. log_document e buf) (log_failed e level callocs s es)"
proof (induction es arbitrary: s)
  case Nil
  then show ?case by (simp add: log_failed_def)
next
  case (Cons x es)
  obtain k d where x: "x = (k, d)" by (cases x)
  let ?s1 = "log_to_client e (callocs d) level buf d s"
  have "decrefs (log_to_each e callocs level buf (x # es) s)
      = decrefs ?s1 @ map (\<lambda>c. log_document e buf) (log_failed e level callocs ?s1 es)"
    using x by (simp add: Cons.IH)
  also have "\<dots> = decrefs ?s1 @ map (\<lambda>c. log_document e buf) (log_failed e level callocs s es)"
    by (simp only: log_failed_step)
  also have "\<dots> = decrefs s @ map (\<lambda>c. log_document e buf) (log_failed e level callocs s (x # es))"
    using x by (simp add: log_to_client_decrefs log_failed_def)
  finally show ?case .
qed

text \<open>
  C2, as stated, fails. The code compares the other way round: a session receives the
  message when its level is at least the level of the message. A session at level 2
  receives a message of level 1 and none of level 3. And a session that is eligible both
  ways (level 2, message of level 2) receives nothing when the node cannot be allocated.
\<close>

theorem log_broadcast_counterexample:
  "\<not> spec_log_eligible example_env (log_level (client_mem log_server 3)) 1
   \<and> head (client_mem (w_log_to_clients example_env (\<lambda>c. Some 10) 1 ''hi'' log_server) 3) = Some 10
   \<and> json (resp_mem (w_log_to_clients example_env (\<lambda>c. Some 10) 1 ''hi'' log_server) 10)
       = Some (JObject [(''version'', JString ''2.5''), (''log'', JString ''hi'')])
   \<and> spec_log_eligible example_env (log_level (client_mem log_server 3)) 3
   \<and> w_log_to_clients example_env (\<lambda>c. Some 10) 3 ''hi'' log_server = log_server
   \<and> spec_log_eligible example_env (log_level (client_mem log_server 3)) 2
   \<and> w_log_to_clients example_env (\<lambda>c. None) 2 ''hi'' log_server
       = log_server\<lparr>decrefs := [JObject [(''version'', JString ''2.5''), (''log'', JString ''hi'')]]\<rparr>"
proof -
  have lv: "log_level (client_mem log_server 3) = 2" "log_level (client_mem log_server 4) = 0"
    by (simp_all add: log_server_def fresh_server_def zero_client_def)
  have w1: "log_wanted example_env 1 (client_mem log_server 3)"
    "\<not> log_wanted example_env 3 (client_mem log_server 3)"
    "log_wanted example_env 2 (client_mem log_server 3)"
    "\<not> log_wanted example_env l (client_mem log_server 4)" for l
    by (simp_all add: log_wanted_def lv example_env_def)
  have reg: "clients log_server = Some [(5, 3), (6, 4)]"
    by (simp add: log_server_def fresh_server_def)
  have doc: "log_document example_env ''hi'' = JObject [(''version'', JString ''2.5''), (''log'', JString ''hi'')]"
    by (simp add: log_document_def example_env_def)
  have a: "w_log_to_clients example_env (\<lambda>c. Some 10) 1 ''hi'' log_server
      = snd (enqueue_response (Some 10) 3 (Some (log_document example_env ''hi'')) True log_server)"
    by (simp add: w_log_to_clients_def reg log_to_client_cases w1 enqueue_frame)
  have b: "w_log_to_clients example_env (\<lambda>c. Some 10) 3 ''hi'' log_server = log_server"
    by (simp add: w_log_to_clients_def reg log_to_client_cases w1)
  have c: "w_log_to_clients example_env (\<lambda>c. None) 2 ''hi'' log_server
       = log_server\<lparr>decrefs := [log_document example_env ''hi'']\<rparr>"
    by (simp add: w_log_to_clients_def reg log_to_client_cases w1 log_wanted_def lv example_env_def)
      (simp add: log_server_def fresh_server_def)
  have t: "tail (client_mem log_server 3) = None"
    by (simp add: log_server_def fresh_server_def zero_client_def)
  show ?thesis
    by (simp add: a b c doc [symmetric] enqueue_client enqueue_json t)
      (simp add: spec_log_eligible_def lv example_env_def)
qed

text \<open>
  C2, amended. Let the registry hold distinct clients with well-formed queues (each a
  chain of allocated nodes ending in null, sharing no node with another queue), and let
  \<^verbatim>\<open>calloc\<close> return, for each client, null or a node that is not allocated, no node
  twice. After \<^verbatim>\<open>w_log_to_clients\<close>, a session whose log level is not off and is at
  least the level of the message, and for which the node was allocated, has its former
  queue followed by that node, which holds the version and the log text; its structure
  is what \<^verbatim>\<open>enqueue_response\<close> with \<open>ping\<close> true leaves, which is one more byte in the
  wakeup pipe, the write to the pipe being taken to succeed. Every other session has its
  former queue and its structure is unchanged. The documents already queued are
  unchanged. The documents released are the log document, once for each session that
  wants the level and whose node could not be allocated, and no other.
\<close>

theorem log_broadcast:
  assumes reg: "clients s = Some entries" and dist: "distinct (map snd entries)"
    and wf: "wf_queues s (snd ` set entries) Q"
    and fresh: "\<forall>c\<in>snd ` set entries. \<forall>p. callocs c = Some p \<longrightarrow> p \<notin> resp_live s"
    and inj: "\<forall>c\<in>snd ` set entries. \<forall>d\<in>snd ` set entries.
                c \<noteq> d \<longrightarrow> callocs c = None \<or> callocs c \<noteq> callocs d"
    and c: "c \<in> snd ` set entries"
    and s': "s' = w_log_to_clients e callocs level buf s"
  shows "(log_level (client_mem s c) \<noteq> W_LOG_OFF e \<and> level \<le> log_level (client_mem s c)
            \<and> callocs c = Some p \<longrightarrow>
          queue_nodes s' c (Q c @ [p]) \<and> json (resp_mem s' p) = Some (log_document e buf)
            \<and> ping (client_mem s' c) = ping (client_mem s c) + 1
            \<and> client_mem s' c
                = client_mem (snd (enqueue_response (Some p) c (Some (log_document e buf)) True s)) c)
       \<and> (\<not> (log_level (client_mem s c) \<noteq> W_LOG_OFF e \<and> level \<le> log_level (client_mem s c))
            \<or> callocs c = None \<longrightarrow>
          queue_nodes s' c (Q c) \<and> client_mem s' c = client_mem s c)
       \<and> (\<forall>a\<in>set (Q c). json (resp_mem s' a) = json (resp_mem s a))
       \<and> decrefs s' = decrefs s @ map (\<lambda>d. log_document e buf)
            (filter (\<lambda>d. log_level (client_mem s d) \<noteq> W_LOG_OFF e \<and> level \<le> log_level (client_mem s d)
                          \<and> callocs d = None) (map snd entries))"
proof -
  let ?C = "snd ` set entries"
  have s'_eq: "s' = log_to_each e callocs level buf entries s"
    using s' reg by (simp add: w_log_to_clients_def)
  have wanted: "log_wanted e level (client_mem s c)
      = (log_level (client_mem s c) \<noteq> W_LOG_OFF e \<and> level \<le> log_level (client_mem s c))"
    by (simp add: log_wanted_def)
  have "wf_queues s' ?C (\<lambda>c. if c \<in> ?C then Q c @ log_nodes e level callocs s c else Q c)"
    unfolding s'_eq using dist wf subset_refl fresh inj by (rule log_to_each_wf)
  then have "queue_nodes s' c (if c \<in> ?C then Q c @ log_nodes e level callocs s c else Q c)"
    using c by (rule wf_queues_nodes)
  then have nodes: "queue_nodes s' c (Q c @ log_nodes e level callocs s c)"
    using c by simp
  have client: "client_mem s' c = client_mem (log_to_client e (callocs c) level buf c s) c"
    unfolding s'_eq using dist c by (rule log_to_each_client)
  have 1: "queue_nodes s' c (Q c @ [p]) \<and> json (resp_mem s' p) = Some (log_document e buf)
            \<and> ping (client_mem s' c) = ping (client_mem s c) + 1
            \<and> client_mem s' c
                = client_mem (snd (enqueue_response (Some p) c (Some (log_document e buf)) True s)) c"
    if w: "log_wanted e level (client_mem s c)" and p: "callocs c = Some p"
  proof -
    have "queue_nodes s' c (Q c @ [p])"
      using nodes w p by (simp add: log_nodes_def)
    moreover have "json (resp_mem s' p) = Some (log_document e buf)"
      unfolding s'_eq log_to_each_json using c w p by auto
    moreover have "ping (client_mem s' c) = ping (client_mem s c) + 1"
      using w p by (simp add: client log_to_client_cases enqueue_client)
    moreover have "client_mem s' c
        = client_mem (snd (enqueue_response (Some p) c (Some (log_document e buf)) True s)) c"
      using w p by (simp add: client log_to_client_cases)
    ultimately show ?thesis by simp
  qed
  have 2: "queue_nodes s' c (Q c) \<and> client_mem s' c = client_mem s c"
    if "\<not> log_wanted e level (client_mem s c) \<or> callocs c = None"
  proof -
    have "log_nodes e level callocs s c = []"
      using that by (auto simp: log_nodes_def)
    then have "queue_nodes s' c (Q c)" using nodes by simp
    moreover have "client_mem s' c = client_mem s c"
      using that by (cases "log_wanted e level (client_mem s c)") (auto simp: client log_to_client_cases)
    ultimately show ?thesis by simp
  qed
  have 3: "json (resp_mem s' a) = json (resp_mem s a)" if a: "a \<in> set (Q c)" for a
  proof -
    have live: "a \<in> resp_live s" using wf c a by (rule wf_queues_live)
    have "callocs d \<noteq> Some a" if d: "d \<in> ?C" for d
    proof
      assume "callocs d = Some a"
      moreover have "\<forall>p. callocs d = Some p \<longrightarrow> p \<notin> resp_live s"
        using fresh d by (rule bspec)
      ultimately show False using live by simp
    qed
    then have "\<not> (\<exists>d\<in>?C. log_wanted e level (client_mem s d) \<and> callocs d = Some a)"
      by (meson)
    then show ?thesis unfolding s'_eq log_to_each_json by (simp only: if_False)
  qed
  have 4: "decrefs s' = decrefs s @ map (\<lambda>d. log_document e buf)
            (filter (\<lambda>d. log_level (client_mem s d) \<noteq> W_LOG_OFF e \<and> level \<le> log_level (client_mem s d)
                          \<and> callocs d = None) (map snd entries))"
    unfolding s'_eq log_to_each_decrefs by (simp add: log_failed_def log_wanted_def)
  have c1: "log_level (client_mem s c) \<noteq> W_LOG_OFF e \<and> level \<le> log_level (client_mem s c)
            \<and> callocs c = Some p \<longrightarrow>
          queue_nodes s' c (Q c @ [p]) \<and> json (resp_mem s' p) = Some (log_document e buf)
            \<and> ping (client_mem s' c) = ping (client_mem s c) + 1
            \<and> client_mem s' c
                = client_mem (snd (enqueue_response (Some p) c (Some (log_document e buf)) True s)) c"
    using 1 unfolding wanted by blast
  have c2: "\<not> (log_level (client_mem s c) \<noteq> W_LOG_OFF e \<and> level \<le> log_level (client_mem s c))
            \<or> callocs c = None \<longrightarrow>
          queue_nodes s' c (Q c) \<and> client_mem s' c = client_mem s c"
    using 2 unfolding wanted by blast
  have c3: "\<forall>a\<in>set (Q c). json (resp_mem s' a) = json (resp_mem s a)"
    using 3 by blast
  show ?thesis
    by (intro conjI) (rule c1 c2 c3 4)+
qed

theorem log_broadcast_witness:
  "clients log_server = Some [(5, 3), (6, 4)] \<and> distinct (map snd [(5::int, 3::nat), (6, 4)])
   \<and> log_level (client_mem log_server 3) = 2 \<and> log_level (client_mem log_server 4) = W_LOG_OFF example_env
   \<and> queue_nodes (w_log_to_clients example_env (\<lambda>c. Some (10 + c)) 1 ''hi'' log_server) 3 [13]
   \<and> json (resp_mem (w_log_to_clients example_env (\<lambda>c. Some (10 + c)) 1 ''hi'' log_server) 13)
        = Some (log_document example_env ''hi'')
   \<and> ping (client_mem (w_log_to_clients example_env (\<lambda>c. Some (10 + c)) 1 ''hi'' log_server) 3) = 1
   \<and> decrefs (w_log_to_clients example_env (\<lambda>c. Some (10 + c)) 1 ''hi'' log_server) = []
   \<and> queue_nodes (w_log_to_clients example_env (\<lambda>c. Some (10 + c)) 1 ''hi'' log_server) 4 []
   \<and> client_mem (w_log_to_clients example_env (\<lambda>c. Some (10 + c)) 1 ''hi'' log_server) 4
        = client_mem log_server 4
   \<and> queue_nodes (w_log_to_clients example_env (\<lambda>c. None) 1 ''hi'' log_server) 3 []
   \<and> client_mem (w_log_to_clients example_env (\<lambda>c. None) 1 ''hi'' log_server) 3
        = client_mem log_server 3
   \<and> decrefs (w_log_to_clients example_env (\<lambda>c. None) 1 ''hi'' log_server)
        = [log_document example_env ''hi'']"
proof -
  let ?es = "[(5::int, 3::nat), (6, 4)]"
  let ?callocs = "\<lambda>c::nat. Some (10 + c)"
  let ?fail = "\<lambda>c::nat. None :: resp_ptr option"
  have reg: "clients log_server = Some ?es"
    by (simp add: log_server_def fresh_server_def)
  have dist: "distinct (map snd ?es)" by simp
  have wf: "wf_queues log_server (snd ` set ?es) (\<lambda>c. [])"
    by (simp add: wf_queues_def queue_nodes_def log_server_def fresh_server_def zero_client_def)
  have fresh: "\<forall>c\<in>snd ` set ?es. \<forall>p. ?callocs c = Some p \<longrightarrow> p \<notin> resp_live log_server"
    by (simp add: log_server_def fresh_server_def)
  have inj: "\<forall>c\<in>snd ` set ?es. \<forall>d\<in>snd ` set ?es. c \<noteq> d \<longrightarrow> ?callocs c = None \<or> ?callocs c \<noteq> ?callocs d"
    by simp
  have fresh': "\<forall>c\<in>snd ` set ?es. \<forall>p. ?fail c = Some p \<longrightarrow> p \<notin> resp_live log_server"
    by simp
  have inj': "\<forall>c\<in>snd ` set ?es. \<forall>d\<in>snd ` set ?es. c \<noteq> d \<longrightarrow> ?fail c = None \<or> ?fail c \<noteq> ?fail d"
    by simp
  have lv: "log_level (client_mem log_server 3) = 2" "log_level (client_mem log_server 4) = 0"
    "ping (client_mem log_server 3) = 0" "decrefs log_server = []"
    by (simp_all add: log_server_def fresh_server_def zero_client_def)
  have c1: "(3::nat) \<in> snd ` set ?es" and c2: "(4::nat) \<in> snd ` set ?es" by simp_all
  show ?thesis
    using log_broadcast [OF reg dist wf fresh inj c1 refl, of example_env 1 13 "''hi''"]
      log_broadcast [OF reg dist wf fresh inj c2 refl, of example_env 1 14 "''hi''"]
      log_broadcast [OF reg dist wf fresh' inj' c1 refl, of example_env 1 13 "''hi''"]
      reg lv
    by (simp add: example_env_def enqueue_client)
qed

end
